theory Spec2Isabelle
  imports Main "HOL-Library.Sublist"
begin

section \<open>JavaScript values\<close>

text \<open>
  The values the linker handles.  \<open>Function i\<close> is a reference to a function object of
  the caller (selector, view class, callback, saga, enhancer); \<open>i\<close> is its identity, so
  that two occurrences of \<open>Function i\<close> are the same object.  \<open>Connected k s v\<close> is a
  reference to the component that the \<open>k\<close>-th call of the view-binding library's
  \<^verbatim>\<open>connect\<close> returned, for \<^verbatim>\<open>connect(s)(v)\<close>: each call returns a new object.  The
  \<^verbatim>\<open>displayName\<close> property of these objects is not part of the reference; it is kept in
  the store \<open>displayNames\<close> of the state below, where an assignment through one reference
  is seen through every other reference to the same object.
\<close>

datatype val =
    Undefined
  | Null
  | Bool bool
  | Num int
  | Str string
  | Function nat
  | Connected nat val val

fun typeof :: "val \<Rightarrow> string" where
  "typeof Undefined = ''undefined''"
| "typeof Null = ''object''"
| "typeof (Bool b) = ''boolean''"
| "typeof (Num n) = ''number''"
| "typeof (Str s) = ''string''"
| "typeof (Function i) = ''function''"
| "typeof (Connected k s v) = ''function''"

text \<open>
  The errors the linker throws, one constructor for each \<^verbatim>\<open>throw\<close> of the source, with
  the name or type string that the message carries.  \<open>TypeError\<close> is the runtime's error
  for calling a value that is no function and for assigning a property of a value that
  is no object; \<open>Thrown\<close> is an exception raised by user code.
\<close>

datatype error =
    UseOfUndefinedName string
  | ActionTypeConflict val
  | LinkerConflict string
  | UndefinedDependency string
  | InvalidUse
  | UseOfUndeclaredDependency string
  | DirectiveAfterSeal
  | InvalidSelectorForView
  | TypeError
  | Thrown val

text \<open>A redux action: its \<^verbatim>\<open>type\<close> property and the rest of the object.\<close>

datatype action = Action (action_type: val) (payload: val)

text \<open>
  A reducer is a function \<^verbatim>\<open>(state, action) => state\<close>, which may throw.  Where the code
  expects a reducer it may also find \<^verbatim>\<open>null\<close> or \<^verbatim>\<open>undefined\<close>, the falsy operands
  that the combinators of \<^verbatim>\<open>utils.js\<close> test for with \<^verbatim>\<open>!reducer\<close>.
\<close>

type_synonym reducer = "val \<Rightarrow> action \<Rightarrow> error + val"

datatype rval = RNull | RUndefined | RFun reducer

fun falsy :: "rval \<Rightarrow> bool" where
  "falsy RNull = True"
| "falsy RUndefined = True"
| "falsy (RFun f) = False"

text \<open>Calling a value as a reducer: \<^verbatim>\<open>r(state, action)\<close>.\<close>

fun callReducer :: "rval \<Rightarrow> reducer" where
  "callReducer (RFun f) state action = f state action"
| "callReducer RNull state action = Inl TypeError"
| "callReducer RUndefined state action = Inl TypeError"

section \<open>utils.js\<close>

text \<open>
  The closure \<^verbatim>\<open>(state, action) => secondReducer(firstReducer(state, action), action)\<close>:
  the argument \<^verbatim>\<open>firstReducer(state, action)\<close> is evaluated before \<^verbatim>\<open>secondReducer\<close>
  is called.
\<close>

definition composed :: "rval \<Rightarrow> rval \<Rightarrow> reducer" where
  "composed firstReducer secondReducer state action =
     (case callReducer firstReducer state action of
        Inl e \<Rightarrow> Inl e
      | Inr state' \<Rightarrow> callReducer secondReducer state' action)"

definition directCompose :: "rval \<Rightarrow> rval \<Rightarrow> rval" where
  "directCompose secondReducer firstReducer =
     (if falsy firstReducer then secondReducer
      else if falsy secondReducer then firstReducer
      else RFun (composed firstReducer secondReducer))"

definition reverseCompose :: "rval \<Rightarrow> rval \<Rightarrow> rval" where
  "reverseCompose firstReducer secondReducer =
     (if falsy firstReducer then secondReducer
      else if falsy secondReducer then firstReducer
      else RFun (composed firstReducer secondReducer))"

text \<open>
  A plain object is a map from property names to values.  Every plain object inherits
  the properties of \<^verbatim>\<open>Object.prototype\<close>, which the operator \<^verbatim>\<open>in\<close> and a property read
  both see; the prototype is a parameter of the model (\<open>objectPrototype\<close> below).
\<close>

type_synonym object = "string \<rightharpoonup> val"

definition hasProperty :: "object \<Rightarrow> object \<Rightarrow> string \<Rightarrow> bool" where
  "hasProperty proto target property = (target property \<noteq> None \<or> proto property \<noteq> None)"

definition getProperty :: "object \<Rightarrow> object \<Rightarrow> string \<Rightarrow> val" where
  "getProperty proto target property =
     (case target property of
        Some v \<Rightarrow> v
      | None \<Rightarrow> (case proto property of Some v \<Rightarrow> v | None \<Rightarrow> Undefined))"

text \<open>
  \<^verbatim>\<open>makeSafeProxy(obj, onError)\<close>: a read of \<open>property\<close> through the object it returns.
  Where the runtime has no \<^verbatim>\<open>Proxy\<close> the object itself is returned and the read is a
  plain one.  Only reads are trapped: a write goes to the target.
\<close>

definition safeGet :: "bool \<Rightarrow> object \<Rightarrow> (string \<Rightarrow> error) \<Rightarrow> object \<Rightarrow> string \<Rightarrow> error + val" where
  "safeGet proxySupported proto onError target property =
     (if \<not> proxySupported then Inr (getProperty proto target property)
      else if hasProperty proto target property then Inr (getProperty proto target property)
      else Inl (onError property))"

section \<open>index.js: the state of one link call\<close>

text \<open>
  The variables that the closures of \<^verbatim>\<open>link\<close> share, together with the part of the
  runtime they depend on: whether \<^verbatim>\<open>Proxy\<close> exists, \<^verbatim>\<open>Object.prototype\<close>, the store of
  the dependency objects (\<^verbatim>\<open>locals\<close> of a bundle, the target of a \<^verbatim>\<open>pack\<close>), each known by
  its address, the \<^verbatim>\<open>displayName\<close> that has been assigned to a function object or
  component, and the number of components that \<^verbatim>\<open>connect\<close> has returned.  The type map holds the tags \<^verbatim>\<open>'value'\<close>, \<^verbatim>\<open>'selector'\<close>, \<^verbatim>\<open>'action'\<close> and
  \<^verbatim>\<open>'view'\<close>.  A queued use is the pair of a target and the array of names that
  \<^verbatim>\<open>use(...names)\<close> or \<^verbatim>\<open>pack(...names)\<close> collected.
\<close>

record linker =
  hasProxy :: bool
  objectPrototype :: object
  heap :: "nat \<Rightarrow> object"
  nextAddress :: nat
  displayNames :: "val \<rightharpoonup> string"
  connectCalls :: nat
  globalScope :: object
  typeMap :: "string \<rightharpoonup> string"
  nameForActionType :: "val \<rightharpoonup> string"
  enhancers :: "val list"
  useQueue :: "(nat \<times> string list) list"

definition declareActionType :: "val \<Rightarrow> string \<Rightarrow> linker \<Rightarrow> error + linker" where
  "declareActionType actionType name l =
     (if nameForActionType l actionType \<noteq> None then Inl (ActionTypeConflict actionType)
      else Inr (l\<lparr>nameForActionType := (nameForActionType l)(actionType \<mapsto> name)\<rparr>))"

definition declareUse :: "nat \<Rightarrow> string list \<Rightarrow> linker \<Rightarrow> linker" where
  "declareUse target names l = l\<lparr>useQueue := useQueue l @ [(target, names)]\<rparr>"

definition addEnhancer :: "val \<Rightarrow> linker \<Rightarrow> linker" where
  "addEnhancer enhancer l = l\<lparr>enhancers := enhancers l @ [enhancer]\<rparr>"

definition publish :: "string \<Rightarrow> string \<Rightarrow> val \<Rightarrow> linker \<Rightarrow> error + linker" where
  "publish type name value l =
     (if hasProperty (objectPrototype l) (globalScope l) name then Inl (LinkerConflict name)
      else Inr (l\<lparr>typeMap := (typeMap l)(name \<mapsto> type),
                  globalScope := (globalScope l)(name \<mapsto> value)\<rparr>))"

definition lookup :: "string \<Rightarrow> linker \<Rightarrow> val" where
  "lookup name l = getProperty (objectPrototype l) (globalScope l) name"

text \<open>
  The type filter of \<^verbatim>\<open>inject\<close>.  \<^verbatim>\<open>link\<close> passes the array \<^verbatim>\<open>['action', 'selector', 'value']\<close>
  in the first phase and the string \<^verbatim>\<open>'views'\<close> in the second, so \<^verbatim>\<open>typeFilter.indexOf\<close>
  is \<^verbatim>\<open>Array.prototype.indexOf\<close> (strict equality with an element) in the first and
  \<^verbatim>\<open>String.prototype.indexOf\<close> (position of a substring, the argument converted to a
  string) in the second.  The type searched for is \<^verbatim>\<open>undefined\<close> when the type map has
  no entry for the name.
\<close>

datatype typeFilter = NoFilter | TypeArray "string list" | TypeString string

fun truthy :: "typeFilter \<Rightarrow> bool" where
  "truthy NoFilter = False"
| "truthy (TypeArray ts) = True"
| "truthy (TypeString s) = (s \<noteq> [])"

fun Array_indexOf :: "string list \<Rightarrow> string option \<Rightarrow> int" where
  "Array_indexOf [] x = - 1"
| "Array_indexOf (y # ys) x =
     (if x = Some y then 0
      else (let i = Array_indexOf ys x in if i = - 1 then - 1 else i + 1))"

fun String_indexOf :: "string \<Rightarrow> string \<Rightarrow> int" where
  "String_indexOf [] pat = (if pat = [] then 0 else - 1)"
| "String_indexOf (c # cs) pat =
     (if prefix pat (c # cs) then 0
      else (let i = String_indexOf cs pat in if i = - 1 then - 1 else i + 1))"

fun toString :: "string option \<Rightarrow> string" where
  "toString None = ''undefined''"
| "toString (Some s) = s"

fun indexOf :: "typeFilter \<Rightarrow> string option \<Rightarrow> int" where
  "indexOf NoFilter x = - 1"
| "indexOf (TypeArray ts) x = Array_indexOf ts x"
| "indexOf (TypeString s) x = String_indexOf s (toString x)"

definition inject :: "typeFilter \<Rightarrow> nat \<Rightarrow> string \<Rightarrow> linker \<Rightarrow> error + linker" where
  "inject typeFilter locals name l =
     (if truthy typeFilter \<and> - 1 = indexOf typeFilter (typeMap l name) then Inr l
      else if hasProperty (objectPrototype l) (globalScope l) name
      then Inr (l\<lparr>heap := (heap l)(locals :=
                  (heap l locals)(name \<mapsto> getProperty (objectPrototype l) (globalScope l) name))\<rparr>)
      else Inl (UndefinedDependency name))"

text \<open>
  \<^verbatim>\<open>injectAll\<close>: the outer loop runs over the use queue, the inner one over the names of
  an entry.  \<^verbatim>\<open>Bundle.use\<close> and \<^verbatim>\<open>Bundle.pack\<close>, the only callers of \<^verbatim>\<open>declareUse\<close>, queue
  the array of their rest parameter, so the branches for a string and for anything
  else (\<open>InvalidUse\<close>) are not taken.
\<close>

fun injectNames :: "typeFilter \<Rightarrow> nat \<Rightarrow> string list \<Rightarrow> linker \<Rightarrow> error + linker" where
  "injectNames typeFilter locals [] l = Inr l"
| "injectNames typeFilter locals (name # names) l =
     (case inject typeFilter locals name l of
        Inl e \<Rightarrow> Inl e
      | Inr l' \<Rightarrow> injectNames typeFilter locals names l')"

fun injectQueue :: "typeFilter \<Rightarrow> (nat \<times> string list) list \<Rightarrow> linker \<Rightarrow> error + linker" where
  "injectQueue typeFilter [] l = Inr l"
| "injectQueue typeFilter ((locals, arg) # queue) l =
     (case injectNames typeFilter locals arg l of
        Inl e \<Rightarrow> Inl e
      | Inr l' \<Rightarrow> injectQueue typeFilter queue l')"

definition injectAll :: "typeFilter \<Rightarrow> linker \<Rightarrow> error + linker" where
  "injectAll typeFilter l = injectQueue typeFilter (useQueue l) l"

section \<open>bundle.js: the bundle node\<close>

text \<open>
  A view declaration as \<^verbatim>\<open>defineView\<close> queues it: \<^verbatim>\<open>{name, view, selector}\<close>.
\<close>

record viewDecl =
  viewName :: string
  viewImpl :: val
  viewSelector :: val

text \<open>
  The fields of a bundle: \<^verbatim>\<open>this.locals\<close> (the address of the dependency object) and the
  lists and the flag of \<^verbatim>\<open>this._\<close>.  The children \<^verbatim>\<open>this._.bundles\<close> make the tree.  A keyed
  reducer is stored with the name of its action.
\<close>

record node =
  locals :: nat
  earlyReducers :: "rval list"
  actionReducers :: "(string \<times> reducer) list"
  lateReducers :: "rval list"
  views :: "viewDecl list"
  defers :: "val list"
  sagas :: "val list"
  sealed :: bool

datatype "bundle" = Bundle (own: node) (bundles: "bundle list")

definition modify :: "(node \<Rightarrow> node) \<Rightarrow> bundle \<Rightarrow> bundle" where
  "modify f b = Bundle (f (own b)) (bundles b)"

text \<open>
  \<^verbatim>\<open>new Bundle(linker, builder)\<close>: a fresh, empty dependency object and empty lists.
\<close>

definition new_Bundle :: "linker \<Rightarrow> bundle \<times> linker" where
  "new_Bundle l =
     (Bundle \<lparr>locals = nextAddress l, earlyReducers = [], actionReducers = [],
              lateReducers = [], views = [], defers = [], sagas = [], sealed = False\<rparr> [],
      l\<lparr>heap := (heap l)(nextAddress l := Map.empty), nextAddress := Suc (nextAddress l)\<rparr>)"

definition assertNotSealed :: "bundle \<Rightarrow> error + unit" where
  "assertNotSealed b = (if sealed (own b) then Inl DirectiveAfterSeal else Inr ())"

definition Bundle_use :: "string list \<Rightarrow> bundle \<Rightarrow> linker \<Rightarrow> error + bundle \<times> linker" where
  "Bundle_use names b l =
     (case assertNotSealed b of
        Inl e \<Rightarrow> Inl e
      | Inr _ \<Rightarrow> Inr (b, declareUse (locals (own b)) names l))"

text \<open>\<^verbatim>\<open>pack\<close> returns its fresh target beside the state.\<close>

definition Bundle_pack :: "string list \<Rightarrow> bundle \<Rightarrow> linker \<Rightarrow> error + nat \<times> bundle \<times> linker" where
  "Bundle_pack names b l =
     (case assertNotSealed b of
        Inl e \<Rightarrow> Inl e
      | Inr _ \<Rightarrow>
          (let target = nextAddress l;
               l1 = l\<lparr>heap := (heap l)(target := Map.empty), nextAddress := Suc target\<rparr>
           in Inr (target, b, declareUse target names l1)))"

definition Bundle_defineValue :: "string \<Rightarrow> val \<Rightarrow> bundle \<Rightarrow> linker \<Rightarrow> error + bundle \<times> linker" where
  "Bundle_defineValue name value b l =
     (case assertNotSealed b of
        Inl e \<Rightarrow> Inl e
      | Inr _ \<Rightarrow>
          (case publish ''value'' name value l of
             Inl e \<Rightarrow> Inl e
           | Inr l1 \<Rightarrow> Bundle_use [name] b l1))"

definition Bundle_defineSelector :: "string \<Rightarrow> val \<Rightarrow> bundle \<Rightarrow> linker \<Rightarrow> error + bundle \<times> linker" where
  "Bundle_defineSelector name value b l =
     (case assertNotSealed b of
        Inl e \<Rightarrow> Inl e
      | Inr _ \<Rightarrow>
          (case publish ''selector'' name value l of
             Inl e \<Rightarrow> Inl e
           | Inr l1 \<Rightarrow> Bundle_use [name] b l1))"

definition Bundle_defineAction :: "string \<Rightarrow> val \<Rightarrow> bundle \<Rightarrow> linker \<Rightarrow> error + bundle \<times> linker" where
  "Bundle_defineAction name actionType b l =
     (case assertNotSealed b of
        Inl e \<Rightarrow> Inl e
      | Inr _ \<Rightarrow>
          (case declareActionType actionType name l of
             Inl e \<Rightarrow> Inl e
           | Inr l1 \<Rightarrow>
               (case publish ''action'' name actionType l1 of
                  Inl e \<Rightarrow> Inl e
                | Inr l2 \<Rightarrow> Bundle_use [name] b l2)))"

text \<open>
  \<^verbatim>\<open>defineView(name, selector, view)\<close>; in the call with two arguments \<open>view\<close> is
  \<^verbatim>\<open>undefined\<close> and the second argument is the view.
\<close>

definition Bundle_defineView :: "string \<Rightarrow> val \<Rightarrow> val \<Rightarrow> bundle \<Rightarrow> linker \<Rightarrow> error + bundle \<times> linker" where
  "Bundle_defineView name selector view b l =
     (case assertNotSealed b of
        Inl e \<Rightarrow> Inl e
      | Inr _ \<Rightarrow>
          (let view' = (if view = Undefined then selector else view);
               selector' = (if view = Undefined then Undefined else selector)
           in case Bundle_use [name] b l of
                Inl e \<Rightarrow> Inl e
              | Inr (b1, l1) \<Rightarrow>
                  Inr (modify (\<lambda>n. n\<lparr>views := views n @
                         [\<lparr>viewName = name, viewImpl = view', viewSelector = selector'\<rparr>]\<rparr>) b1, l1)))"

text \<open>
  \<^verbatim>\<open>addReducer(name, reducer)\<close> has two forms.  With a reducer function as the second
  argument the reducer is keyed by the action name (\<open>Bundle_addReducer\<close>).  With the
  second argument left out, the first argument is itself the reducer and joins the late
  reducers (\<open>Bundle_addReducer1\<close>).
\<close>

definition Bundle_addReducer :: "string \<Rightarrow> reducer \<Rightarrow> bundle \<Rightarrow> linker \<Rightarrow> error + bundle \<times> linker" where
  "Bundle_addReducer name reducer b l =
     (case assertNotSealed b of
        Inl e \<Rightarrow> Inl e
      | Inr _ \<Rightarrow>
          (case Bundle_use [name] b l of
             Inl e \<Rightarrow> Inl e
           | Inr (b1, l1) \<Rightarrow>
               Inr (modify (\<lambda>n. n\<lparr>actionReducers := actionReducers n @ [(name, reducer)]\<rparr>) b1, l1)))"

definition Bundle_addReducer1 :: "rval \<Rightarrow> bundle \<Rightarrow> linker \<Rightarrow> error + bundle \<times> linker" where
  "Bundle_addReducer1 name b l =
     (case assertNotSealed b of
        Inl e \<Rightarrow> Inl e
      | Inr _ \<Rightarrow> Inr (modify (\<lambda>n. n\<lparr>lateReducers := lateReducers n @ [name]\<rparr>) b, l))"

definition Bundle_addEarlyReducer :: "rval \<Rightarrow> bundle \<Rightarrow> linker \<Rightarrow> error + bundle \<times> linker" where
  "Bundle_addEarlyReducer reducer b l =
     (case assertNotSealed b of
        Inl e \<Rightarrow> Inl e
      | Inr _ \<Rightarrow> Inr (modify (\<lambda>n. n\<lparr>earlyReducers := earlyReducers n @ [reducer]\<rparr>) b, l))"

definition Bundle_addLateReducer :: "rval \<Rightarrow> bundle \<Rightarrow> linker \<Rightarrow> error + bundle \<times> linker" where
  "Bundle_addLateReducer reducer b l =
     (case assertNotSealed b of
        Inl e \<Rightarrow> Inl e
      | Inr _ \<Rightarrow> Inr (modify (\<lambda>n. n\<lparr>lateReducers := lateReducers n @ [reducer]\<rparr>) b, l))"

definition Bundle_addSaga :: "val \<Rightarrow> bundle \<Rightarrow> linker \<Rightarrow> error + bundle \<times> linker" where
  "Bundle_addSaga saga b l =
     (case assertNotSealed b of
        Inl e \<Rightarrow> Inl e
      | Inr _ \<Rightarrow> Inr (modify (\<lambda>n. n\<lparr>sagas := sagas n @ [saga]\<rparr>) b, l))"

definition Bundle_addEnhancer :: "val \<Rightarrow> bundle \<Rightarrow> linker \<Rightarrow> error + bundle \<times> linker" where
  "Bundle_addEnhancer enhancer b l =
     (case assertNotSealed b of
        Inl e \<Rightarrow> Inl e
      | Inr _ \<Rightarrow> Inr (b, addEnhancer enhancer l))"

definition Bundle_defer :: "val \<Rightarrow> bundle \<Rightarrow> linker \<Rightarrow> error + bundle \<times> linker" where
  "Bundle_defer callback b l =
     (case assertNotSealed b of
        Inl e \<Rightarrow> Inl e
      | Inr _ \<Rightarrow> Inr (modify (\<lambda>n. n\<lparr>defers := defers n @ [callback]\<rparr>) b, l))"

definition Bundle_lookup :: "string \<Rightarrow> bundle \<Rightarrow> linker \<Rightarrow> error + val" where
  "Bundle_lookup name b l = Inr (lookup name l)"

text \<open>
  A builder is a function that calls the methods of the bundle it is given.  It is
  modelled by the list of its calls, in order; the builder of an included bundle is the
  argument of \<open>Include\<close>.  \<open>Bundle_include\<close> makes the child, runs its builder on it and
  appends it to \<^verbatim>\<open>this._.bundles\<close>; an exception of the child's builder leaves the link
  call, so appending after the run gives the tree that \<^verbatim>\<open>push\<close> before the run gives.
\<close>

datatype directive =
    Include "directive list"
  | Use "string list"
  | Pack "string list"
  | DefineValue string val
  | DefineSelector string val
  | DefineAction string val
  | DefineView string val val
  | AddReducer string reducer
  | AddReducer1 rval
  | AddEarlyReducer rval
  | AddLateReducer rval
  | AddSaga val
  | AddEnhancer val
  | Defer val
  | Lookup string

fun Bundle_include :: "directive list \<Rightarrow> bundle \<Rightarrow> linker \<Rightarrow> error + bundle \<times> linker"
and runBuilder :: "directive list \<Rightarrow> bundle \<Rightarrow> linker \<Rightarrow> error + bundle \<times> linker"
and call :: "directive \<Rightarrow> bundle \<Rightarrow> linker \<Rightarrow> error + bundle \<times> linker" where
  "Bundle_include builder b l =
     (case assertNotSealed b of
        Inl e \<Rightarrow> Inl e
      | Inr _ \<Rightarrow>
          (case new_Bundle l of
             (bundle, l1) \<Rightarrow>
               (case runBuilder builder bundle l1 of
                  Inl e \<Rightarrow> Inl e
                | Inr (bundle', l2) \<Rightarrow> Inr (Bundle (own b) (bundles b @ [bundle']), l2))))"
| "runBuilder [] b l = Inr (b, l)"
| "runBuilder (d # ds) b l =
     (case call d b l of
        Inl e \<Rightarrow> Inl e
      | Inr (b', l') \<Rightarrow> runBuilder ds b' l')"
| "call (Include builder) b l = Bundle_include builder b l"
| "call (Use names) b l = Bundle_use names b l"
| "call (Pack names) b l =
     (case Bundle_pack names b l of Inl e \<Rightarrow> Inl e | Inr (target, b', l') \<Rightarrow> Inr (b', l'))"
| "call (DefineValue name value) b l = Bundle_defineValue name value b l"
| "call (DefineSelector name value) b l = Bundle_defineSelector name value b l"
| "call (DefineAction name actionType) b l = Bundle_defineAction name actionType b l"
| "call (DefineView name selector view) b l = Bundle_defineView name selector view b l"
| "call (AddReducer name reducer) b l = Bundle_addReducer name reducer b l"
| "call (AddReducer1 reducer) b l = Bundle_addReducer1 reducer b l"
| "call (AddEarlyReducer reducer) b l = Bundle_addEarlyReducer reducer b l"
| "call (AddLateReducer reducer) b l = Bundle_addLateReducer reducer b l"
| "call (AddSaga saga) b l = Bundle_addSaga saga b l"
| "call (AddEnhancer enhancer) b l = Bundle_addEnhancer enhancer b l"
| "call (Defer callback) b l = Bundle_defer callback b l"
| "call (Lookup name) b l =
     (case Bundle_lookup name b l of Inl e \<Rightarrow> Inl e | Inr v \<Rightarrow> Inr (b, l))"

section \<open>bundle.js: the operations the linker runs over the tree\<close>

fun Bundle_seal :: "bundle \<Rightarrow> bundle" where
  "Bundle_seal (Bundle n bs) = Bundle (n\<lparr>sealed := True\<rparr>) (map Bundle_seal bs)"

text \<open>
  \<^verbatim>\<open>view.displayName = ...\<close> assigns the property of the object that \<open>view\<close> refers
  to, in place.  The module is strict code, so the assignment throws a TypeError on
  \<^verbatim>\<open>undefined\<close>, \<^verbatim>\<open>null\<close> and the primitive values.
\<close>

fun setDisplayName :: "string \<Rightarrow> val \<Rightarrow> linker \<Rightarrow> error + linker" where
  "setDisplayName d (Function i) l = Inr (l\<lparr>displayNames := (displayNames l)(Function i \<mapsto> d)\<rparr>)"
| "setDisplayName d (Connected k s v) l =
     Inr (l\<lparr>displayNames := (displayNames l)(Connected k s v \<mapsto> d)\<rparr>)"
| "setDisplayName d view l = Inl TypeError"

text \<open>
  \<^verbatim>\<open>connect(selector)(view)\<close> of the view-binding library: a new component, with no
  \<^verbatim>\<open>displayName\<close> of the linker's yet.
\<close>

definition connect :: "val \<Rightarrow> val \<Rightarrow> linker \<Rightarrow> val \<times> linker" where
  "connect selector view l =
     (Connected (connectCalls l) selector view, l\<lparr>connectCalls := Suc (connectCalls l)\<rparr>)"

text \<open>
  The body of the first loop of \<^verbatim>\<open>_linkViews\<close>, for one view declaration of the bundle
  whose dependency object is at \<open>this_locals\<close>.
\<close>

definition resolveSelector :: "nat \<Rightarrow> val \<Rightarrow> linker \<Rightarrow> error + val" where
  "resolveSelector this_locals selector l =
     (case selector of
        Str s \<Rightarrow> safeGet (hasProxy l) (objectPrototype l) UseOfUndeclaredDependency
                   (heap l this_locals) s
      | _ \<Rightarrow> Inr selector)"

definition bindView :: "nat \<Rightarrow> viewDecl \<Rightarrow> linker \<Rightarrow> error + val \<times> linker" where
  "bindView this_locals decl l =
     (if viewSelector decl \<noteq> Undefined then
        (case resolveSelector this_locals (viewSelector decl) l of
           Inl e \<Rightarrow> Inl e
         | Inr selector \<Rightarrow>
             if typeof selector \<noteq> ''function'' then Inl InvalidSelectorForView
             else Inr (connect selector (viewImpl decl) l))
      else Inr (viewImpl decl, l))"

definition linkView :: "nat \<Rightarrow> viewDecl \<Rightarrow> linker \<Rightarrow> error + linker" where
  "linkView this_locals decl l =
     (case bindView this_locals decl l of
        Inl e \<Rightarrow> Inl e
      | Inr (view, l1) \<Rightarrow>
          (case setDisplayName (''View('' @ viewName decl @ '')'') view l1 of
             Inl e \<Rightarrow> Inl e
           | Inr l2 \<Rightarrow> publish ''view'' (viewName decl) view l2))"

fun linkOwnViews :: "nat \<Rightarrow> viewDecl list \<Rightarrow> linker \<Rightarrow> error + linker" where
  "linkOwnViews this_locals [] l = Inr l"
| "linkOwnViews this_locals (decl # decls) l =
     (case linkView this_locals decl l of
        Inl e \<Rightarrow> Inl e
      | Inr l' \<Rightarrow> linkOwnViews this_locals decls l')"

fun Bundle_linkViews :: "bundle \<Rightarrow> linker \<Rightarrow> error + linker"
and linkViewsOfAll :: "bundle list \<Rightarrow> linker \<Rightarrow> error + linker" where
  "Bundle_linkViews (Bundle n bs) l =
     (case linkOwnViews (locals n) (views n) l of
        Inl e \<Rightarrow> Inl e
      | Inr l' \<Rightarrow> linkViewsOfAll bs l')"
| "linkViewsOfAll [] l = Inr l"
| "linkViewsOfAll (b # bs) l =
     (case Bundle_linkViews b l of
        Inl e \<Rightarrow> Inl e
      | Inr l' \<Rightarrow> linkViewsOfAll bs l')"

text \<open>
  \<^verbatim>\<open>_runDefers\<close>.  What a deferred callback does is outside the linker; the model records
  each invocation, the callee and the arguments it receives, in a log.  The function
  declares no parameter, so the arguments it is called with (\<open>arguments\<close> here) are not
  read; \<^verbatim>\<open>defers[i].call()\<close> invokes the callback with no argument, and is a TypeError
  when the entry is no function.
\<close>

type_synonym invocation = "val \<times> val list"

fun runOwnDefers :: "val list \<Rightarrow> invocation list \<Rightarrow> error + invocation list" where
  "runOwnDefers [] log = Inr log"
| "runOwnDefers (callback # callbacks) log =
     (if typeof callback \<noteq> ''function'' then Inl TypeError
      else runOwnDefers callbacks (log @ [(callback, [])]))"

fun Bundle_runDefers :: "val list \<Rightarrow> bundle \<Rightarrow> invocation list \<Rightarrow> error + invocation list"
and runDefersOfAll :: "bundle list \<Rightarrow> invocation list \<Rightarrow> error + invocation list" where
  "Bundle_runDefers arguments (Bundle n bs) log =
     (case runOwnDefers (defers n) log of
        Inl e \<Rightarrow> Inl e
      | Inr log' \<Rightarrow> runDefersOfAll bs log')"
| "runDefersOfAll [] log = Inr log"
| "runDefersOfAll (b # bs) log =
     (case Bundle_runDefers [] b log of
        Inl e \<Rightarrow> Inl e
      | Inr log' \<Rightarrow> runDefersOfAll bs log')"

text \<open>
  \<^verbatim>\<open>[x1, ..., xn].reduce(f, a)\<close> is \<open>foldl f a [x1, ..., xn]\<close>; the index and the array,
  which \<^verbatim>\<open>reduce\<close> also passes, are not parameters of the combinators.
\<close>

fun Bundle_earlyReducer :: "bundle \<Rightarrow> rval" where
  "Bundle_earlyReducer (Bundle n bs) =
     foldl reverseCompose RNull (earlyReducers n @ map Bundle_earlyReducer bs)"

fun Bundle_lateReducer :: "bundle \<Rightarrow> rval" where
  "Bundle_lateReducer (Bundle n bs) =
     foldl directCompose RNull (lateReducers n @ map Bundle_lateReducer bs)"

text \<open>
  \<^verbatim>\<open>_buildActionMap\<close>.  The action map is a \<^verbatim>\<open>Map\<close> from action types to reducers;
  \<^verbatim>\<open>actionMap.get\<close> gives \<^verbatim>\<open>undefined\<close> for a type that has no entry.
\<close>

type_synonym actionMap = "val \<rightharpoonup> rval"

definition Map_get :: "actionMap \<Rightarrow> val \<Rightarrow> rval" where
  "Map_get actionMap k = (case actionMap k of None \<Rightarrow> RUndefined | Some r \<Rightarrow> r)"

fun addActionReducers :: "nat \<Rightarrow> (string \<times> reducer) list \<Rightarrow> linker \<Rightarrow> actionMap \<Rightarrow> error + actionMap" where
  "addActionReducers this_locals [] l actionMap = Inr actionMap"
| "addActionReducers this_locals ((name, reducer) # rest) l actionMap =
     (case safeGet (hasProxy l) (objectPrototype l) UseOfUndeclaredDependency
             (heap l this_locals) name of
        Inl e \<Rightarrow> Inl e
      | Inr actionType \<Rightarrow>
          (let prevReducer = Map_get actionMap actionType
           in addActionReducers this_locals rest l
                (actionMap(actionType \<mapsto> reverseCompose prevReducer (RFun reducer)))))"

fun Bundle_buildActionMap :: "bundle \<Rightarrow> linker \<Rightarrow> actionMap \<Rightarrow> error + actionMap"
and buildActionMapOfAll :: "bundle list \<Rightarrow> linker \<Rightarrow> actionMap \<Rightarrow> error + actionMap" where
  "Bundle_buildActionMap (Bundle n bs) l actionMap =
     (case addActionReducers (locals n) (actionReducers n) l actionMap of
        Inl e \<Rightarrow> Inl e
      | Inr actionMap' \<Rightarrow> buildActionMapOfAll bs l actionMap')"
| "buildActionMapOfAll [] l actionMap = Inr actionMap"
| "buildActionMapOfAll (b # bs) l actionMap =
     (case Bundle_buildActionMap b l actionMap of
        Inl e \<Rightarrow> Inl e
      | Inr actionMap' \<Rightarrow> buildActionMapOfAll bs l actionMap')"

section \<open>index.js: link\<close>

definition actionReducer :: "actionMap \<Rightarrow> reducer" where
  "actionReducer actionMap state action =
     (if actionMap (action_type action) \<noteq> None
      then callReducer (Map_get actionMap (action_type action)) state action
      else Inr state)"

text \<open>
  What \<^verbatim>\<open>link\<close> returns, as far as the linker itself makes it: the global scope (read
  through the safe proxy, see \<open>scope_get\<close>), the composed reducer, and the root bundle
  and action map that \<^verbatim>\<open>finalize\<close> and the reducer close over.  The store, the composed
  enhancer and the root saga are made by the state container and the effect runtime
  from the reducer, the enhancer list and the saga lists.
\<close>

record linked =
  scope :: linker
  reducer :: rval
  rootBundle :: "bundle"
  actions :: actionMap

definition initial :: "bool \<Rightarrow> object \<Rightarrow> linker" where
  "initial proxySupported proto =
     \<lparr>hasProxy = proxySupported, objectPrototype = proto, heap = (\<lambda>a. Map.empty),
      nextAddress = 0, displayNames = Map.empty, connectCalls = 0,
      globalScope = Map.empty, typeMap = Map.empty,
      nameForActionType = Map.empty, enhancers = [], useQueue = []\<rparr>"

definition link :: "bool \<Rightarrow> object \<Rightarrow> directive list \<Rightarrow> error + linked" where
  "link proxySupported proto rootBuilder =
     (case new_Bundle (initial proxySupported proto) of
        (rootBundle0, l0) \<Rightarrow>
     (case runBuilder rootBuilder rootBundle0 l0 of
        Inl e \<Rightarrow> Inl e
      | Inr (rootBundle1, l1) \<Rightarrow>
     (let rootBundle = Bundle_seal rootBundle1 in
     (case injectAll (TypeArray [''action'', ''selector'', ''value'']) l1 of
        Inl e \<Rightarrow> Inl e
      | Inr l2 \<Rightarrow>
     (case Bundle_linkViews rootBundle l2 of
        Inl e \<Rightarrow> Inl e
      | Inr l3 \<Rightarrow>
     (case injectAll (TypeString ''views'') l3 of
        Inl e \<Rightarrow> Inl e
      | Inr l4 \<Rightarrow>
     (case Bundle_buildActionMap rootBundle l4 Map.empty of
        Inl e \<Rightarrow> Inl e
      | Inr actionMap \<Rightarrow>
          Inr \<lparr>scope = l4,
               reducer = foldl reverseCompose RNull
                 [Bundle_earlyReducer rootBundle, RFun (actionReducer actionMap),
                  Bundle_lateReducer rootBundle],
               rootBundle = rootBundle,
               actions = actionMap\<rparr>)))))))"

text \<open>A read of \<^verbatim>\<open>scope[name]\<close> on the result, and \<^verbatim>\<open>finalize(...args)\<close>.\<close>

definition scope_get :: "linked \<Rightarrow> string \<Rightarrow> error + val" where
  "scope_get r name =
     safeGet (hasProxy (scope r)) (objectPrototype (scope r)) UseOfUndefinedName
       (globalScope (scope r)) name"

definition finalize :: "linked \<Rightarrow> val list \<Rightarrow> error + invocation list" where
  "finalize r args = Bundle_runDefers args (rootBundle r) []"

text \<open>A read of \<^verbatim>\<open>locals[name]\<close> on the dependency object at an address.\<close>

definition locals_get :: "linker \<Rightarrow> nat \<Rightarrow> string \<Rightarrow> error + val" where
  "locals_get l address name =
     safeGet (hasProxy l) (objectPrototype l) UseOfUndeclaredDependency (heap l address) name"

section \<open>Notions used to state the properties\<close>

text \<open>Sequencing of two computations that may throw.\<close>

definition andThen :: "error + 'a \<Rightarrow> ('a \<Rightarrow> error + 'b) \<Rightarrow> error + 'b" where
  "andThen m f = (case m of Inl e \<Rightarrow> Inl e | Inr x \<Rightarrow> f x)"

text \<open>All the nodes of a bundle tree, the root first.\<close>

fun nodes :: "bundle \<Rightarrow> bundle list" where
  "nodes (Bundle n bs) = Bundle n bs # concat (map nodes bs)"

text \<open>
  One stage of the store reducer: an absent stage (\<^verbatim>\<open>null\<close> or \<^verbatim>\<open>undefined\<close>) is skipped by
  the combinators, so it leaves the state as it is.
\<close>

definition stage :: "rval \<Rightarrow> reducer" where
  "stage r state action = (if falsy r then Inr state else callReducer r state action)"

text \<open>
  The early and the late reducers of a tree in declaration order: those of a bundle,
  then those of its children, first child first.
\<close>

fun allEarly :: "bundle \<Rightarrow> rval list" where
  "allEarly (Bundle n bs) = earlyReducers n @ concat (map allEarly bs)"

fun allLate :: "bundle \<Rightarrow> rval list" where
  "allLate (Bundle n bs) = lateReducers n @ concat (map allLate bs)"

text \<open>The deferred callbacks of a tree: those of a bundle, then those of its children.\<close>

fun allDefers :: "bundle \<Rightarrow> val list" where
  "allDefers (Bundle n bs) = defers n @ concat (map allDefers bs)"

text \<open>Applying a list of reducers one after the other, the first one first.\<close>

fun applyAll :: "rval list \<Rightarrow> reducer" where
  "applyAll [] state action = Inr state"
| "applyAll (r # rs) state action =
     andThen (stage r state action) (\<lambda>state'. applyAll rs state' action)"

text \<open>
  The keyed reducers of a tree in the order in which \<^verbatim>\<open>_buildActionMap\<close> visits them (those
  of a bundle in the order of its \<^verbatim>\<open>addReducer\<close> calls, then those of its children,
  first child first), each with the action type that its name has in the dependency
  object of its bundle; and the reducers among them that are keyed to one action type.
\<close>

fun keyedReducers :: "linker \<Rightarrow> bundle \<Rightarrow> (val \<times> reducer) list" where
  "keyedReducers l (Bundle n bs) =
     map (\<lambda>(name, reducer). (getProperty (objectPrototype l) (heap l (locals n)) name, reducer))
       (actionReducers n)
     @ concat (map (keyedReducers l) bs)"

definition reducersFor :: "val \<Rightarrow> (val \<times> reducer) list \<Rightarrow> reducer list" where
  "reducersFor t krs = map snd (filter (\<lambda>kr. fst kr = t) krs)"

text \<open>
  A builder runs before any view is linked, so the views it declares are objects of
  the caller: none of them is a component that \<^verbatim>\<open>connect\<close> returns later, during the
  link.
\<close>

fun isConnected :: "val \<Rightarrow> bool" where
  "isConnected (Connected k s v) = True"
| "isConnected v = False"

definition callerViews :: "bundle \<Rightarrow> bool" where
  "callerViews root =
     list_all (\<lambda>b. list_all (\<lambda>decl. \<not> isConnected (viewImpl decl)) (views (own b))) (nodes root)"

text \<open>
  A view declaration is bound to \<open>selector\<close> in a state of the linker when the global
  scope holds, under the name of the view, a component that \<^verbatim>\<open>connect\<close> returned for
  that selector and the declared view, and the \<^verbatim>\<open>displayName\<close> of that component is
  \<^verbatim>\<open>View(name)\<close>.
\<close>

definition viewBound :: "linker \<Rightarrow> viewDecl \<Rightarrow> val \<Rightarrow> bool" where
  "viewBound l decl selector =
     (\<exists>k<connectCalls l.
        globalScope l (viewName decl) = Some (Connected k selector (viewImpl decl))
        \<and> displayNames l (Connected k selector (viewImpl decl))
            = Some (''View('' @ viewName decl @ '')''))"

text \<open>
  The \<^verbatim>\<open>defineValue\<close>, \<^verbatim>\<open>defineSelector\<close> and \<^verbatim>\<open>defineAction\<close> calls of a builder and of the
  builders it includes, in the order in which they run; the name that such a call
  publishes and the action type that it claims.
\<close>

fun declarations :: "directive \<Rightarrow> directive list"
and declarationsOfAll :: "directive list \<Rightarrow> directive list" where
  "declarations (Include builder) = declarationsOfAll builder"
| "declarations (DefineValue name value) = [DefineValue name value]"
| "declarations (DefineSelector name value) = [DefineSelector name value]"
| "declarations (DefineAction name actionType) = [DefineAction name actionType]"
| "declarations (Use names) = []"
| "declarations (Pack names) = []"
| "declarations (DefineView name selector view) = []"
| "declarations (AddReducer name f) = []"
| "declarations (AddReducer1 f) = []"
| "declarations (AddEarlyReducer f) = []"
| "declarations (AddLateReducer f) = []"
| "declarations (AddSaga saga) = []"
| "declarations (AddEnhancer enhancer) = []"
| "declarations (Defer callback) = []"
| "declarations (Lookup name) = []"
| "declarationsOfAll [] = []"
| "declarationsOfAll (d # ds) = declarations d @ declarationsOfAll ds"

fun declaredName :: "directive \<Rightarrow> string option" where
  "declaredName (DefineValue name value) = Some name"
| "declaredName (DefineSelector name value) = Some name"
| "declaredName (DefineAction name actionType) = Some name"
| "declaredName d = None"

fun claimedType :: "directive \<Rightarrow> val option" where
  "claimedType (DefineAction name actionType) = Some actionType"
| "claimedType d = None"

definition declaredNames :: "directive list \<Rightarrow> string list" where
  "declaredNames ds = concat (map (\<lambda>d. case declaredName d of None \<Rightarrow> [] | Some n \<Rightarrow> [n]) ds)"

definition claimedTypes :: "directive list \<Rightarrow> val list" where
  "claimedTypes ds = concat (map (\<lambda>d. case claimedType d of None \<Rightarrow> [] | Some t \<Rightarrow> [t]) ds)"

text \<open>
  A list of such calls is free of conflicts when no two of them publish the same name,
  none publishes a name that \<^verbatim>\<open>Object.prototype\<close> has, and no two claim the same action
  type: each of them then succeeds when they run from the start of a link.
\<close>

definition conflictFree :: "object \<Rightarrow> directive list \<Rightarrow> bool" where
  "conflictFree proto ds =
     (distinct (declaredNames ds)
      \<and> list_all (\<lambda>n. proto n = None) (declaredNames ds)
      \<and> distinct (claimedTypes ds))"

text \<open>The names of the views that a tree declares, in the order of \<^verbatim>\<open>_linkViews\<close>.\<close>

fun viewNames :: "bundle \<Rightarrow> string list" where
  "viewNames (Bundle n bs) = map viewName (views n) @ concat (map viewNames bs)"

text \<open>
  The names that a publication may not use (those in the global scope or inherited
  from the prototype) and the action types already claimed, in a state of the linker.
\<close>

definition taken :: "linker \<Rightarrow> string set" where
  "taken l = {n. hasProperty (objectPrototype l) (globalScope l) n}"

definition claimed :: "linker \<Rightarrow> val set" where
  "claimed l = dom (nameForActionType l)"

text \<open>
  The error, if any, with which a declaration is refused when the names in \<open>N\<close> are
  taken and the types in \<open>T\<close> claimed, and the first refusal in a list of declarations.
\<close>

fun refusal :: "string set \<Rightarrow> val set \<Rightarrow> directive \<Rightarrow> error option" where
  "refusal N T (DefineAction name actionType) =
     (if actionType \<in> T then Some (ActionTypeConflict actionType)
      else if name \<in> N then Some (LinkerConflict name) else None)"
| "refusal N T (DefineValue name value) = (if name \<in> N then Some (LinkerConflict name) else None)"
| "refusal N T (DefineSelector name value) = (if name \<in> N then Some (LinkerConflict name) else None)"
| "refusal N T d = None"

fun firstRefusal :: "string set \<Rightarrow> val set \<Rightarrow> directive list \<Rightarrow> error option" where
  "firstRefusal N T [] = None"
| "firstRefusal N T (d # ds) =
     (case refusal N T d of
        Some e \<Rightarrow> Some e
      | None \<Rightarrow> firstRefusal (N \<union> set (declaredNames [d])) (T \<union> set (claimedTypes [d])) ds)"

text \<open>
  The outcome of running a builder whose declarations are \<open>ds\<close> from the state \<open>l\<close>: the
  error of the first refusal, or else success with the names of \<open>ds\<close> taken and its
  types claimed in the state reached, and the bundle still open.
\<close>

definition buildsAs :: "error + bundle \<times> linker \<Rightarrow> linker \<Rightarrow> directive list \<Rightarrow> bool" where
  "buildsAs res l ds =
     (case firstRefusal (taken l) (claimed l) ds of
        Some e \<Rightarrow> res = Inl e
      | None \<Rightarrow>
          (case res of
             Inl e \<Rightarrow> False
           | Inr (b', l') \<Rightarrow>
               \<not> sealed (own b')
               \<and> taken l' = taken l \<union> set (declaredNames ds)
               \<and> claimed l' = claimed l \<union> set (claimedTypes ds)))"

section \<open>Example trees\<close>

text \<open>
  A sealed tree for the examples: a root that defines \<open>x\<close> and includes one bundle,
  with the linker state that the build left.
\<close>

definition sealedExample :: "bundle \<times> linker" where
  "sealedExample =
     (case new_Bundle (initial True Map.empty) of
        (root, l) \<Rightarrow>
          (case runBuilder [DefineValue ''x'' (Num 1), Include [Defer (Function 1)]] root l of
             Inr (root', l') \<Rightarrow> (Bundle_seal root', l')
           | Inl e \<Rightarrow> (Bundle_seal root, l)))"

text \<open>
  A reducer that appends a tag to a string state, and a root builder that includes two
  bundles, each with one early and one late reducer, and keys a reducer to the action
  \<open>x\<close> of type \<open>X\<close>.
\<close>

definition tag :: "string \<Rightarrow> reducer" where
  "tag t state action = (case state of Str x \<Rightarrow> Inr (Str (x @ t)) | _ \<Rightarrow> Inr state)"

definition orderExample :: "directive list" where
  "orderExample =
     [Include [AddEarlyReducer (RFun (tag ''eA'')), AddLateReducer (RFun (tag ''lA''))],
      Include [AddEarlyReducer (RFun (tag ''eB'')), AddLateReducer (RFun (tag ''lB''))],
      DefineAction ''x'' (Str ''X''),
      AddReducer ''x'' (tag ''rX'')]"

text \<open>A root builder that keys two reducers to the same action.\<close>

definition chainExample :: "directive list" where
  "chainExample =
     [DefineAction ''x'' (Str ''X''),
      AddReducer ''x'' (tag ''1''),
      AddReducer ''x'' (tag ''2'')]"

text \<open>
  A root builder that defines a selector and a view bound to it by name; and one whose
  view is declared in an included bundle that does not use the selector.
\<close>

definition viewExample :: "directive list" where
  "viewExample =
     [DefineSelector ''s'' (Function 1),
      DefineView ''V'' (Str ''s'') (Function 2)]"

definition foreignViewExample :: "directive list" where
  "foreignViewExample =
     [DefineSelector ''s'' (Function 1),
      Include [DefineView ''V'' (Str ''s'') (Function 2)]]"

text \<open>
  Root builders that include the same bundle twice: one that defines an action, one
  that defines a value.
\<close>

definition twiceActionExample :: "directive list" where
  "twiceActionExample =
     [Include [DefineAction ''a'' (Str ''T'')], Include [DefineAction ''a'' (Str ''T'')]]"

definition twiceValueExample :: "directive list" where
  "twiceValueExample =
     [Include [DefineValue ''x'' (Num 1)], Include [DefineValue ''x'' (Num 1)]]"

definition sameTypeExample :: "directive list" where
  "sameTypeExample =
     [Include [DefineAction ''a'' (Str ''T'')], Include [DefineAction ''b'' (Str ''T'')]]"

text \<open>A root builder that declares a view under the name of a value.\<close>

definition viewClashExample :: "directive list" where
  "viewClashExample =
     [DefineValue ''V'' (Num 1),
      DefineView ''V'' (Function 2) Undefined]"

text \<open>A root builder that declares one function as two views.\<close>

definition sharedViewExample :: "directive list" where
  "sharedViewExample =
     [DefineView ''A'' (Function 2) Undefined,
      DefineView ''B'' (Function 2) Undefined]"

section \<open>The phases of a successful link\<close>

lemma link_InrE:
  assumes "link px proto builder = Inr r"
  obtains root0 l0 root1 l1 l2 l3 l4 where
    "new_Bundle (initial px proto) = (root0, l0)"
    "runBuilder builder root0 l0 = Inr (root1, l1)"
    "injectAll (TypeArray [''action'', ''selector'', ''value'']) l1 = Inr l2"
    "Bundle_linkViews (Bundle_seal root1) l2 = Inr l3"
    "injectAll (TypeString ''views'') l3 = Inr l4"
    "Bundle_buildActionMap (Bundle_seal root1) l4 Map.empty = Inr (actions r)"
    "rootBundle r = Bundle_seal root1" "scope r = l4"
  using assms by (auto simp: link_def Let_def split: prod.splits sum.splits)

text \<open>What linking one view changes in the state.\<close>

lemma setDisplayName_Inr:
  "setDisplayName d view l = Inr l' \<Longrightarrow>
   l' = l\<lparr>displayNames := (displayNames l)(view \<mapsto> d)\<rparr> \<and> typeof view = ''function''"
  by (cases view) simp_all

lemma bindView_Inr:
  assumes "bindView a decl l = Inr (view, l1)"
  shows "(viewSelector decl = Undefined \<and> view = viewImpl decl \<and> l1 = l)
       \<or> (\<exists>selector. viewSelector decl \<noteq> Undefined
             \<and> resolveSelector a (viewSelector decl) l = Inr selector
             \<and> typeof selector = ''function''
             \<and> view = Connected (connectCalls l) selector (viewImpl decl)
             \<and> l1 = l\<lparr>connectCalls := Suc (connectCalls l)\<rparr>)"
proof (cases "viewSelector decl = Undefined")
  case True
  with assms show ?thesis by (simp add: bindView_def)
next
  case False
  with assms obtain selector where
    "resolveSelector a (viewSelector decl) l = Inr selector"
    "typeof selector = ''function''" "connect selector (viewImpl decl) l = (view, l1)"
    by (auto simp: bindView_def split: sum.splits if_splits)
  with False show ?thesis by (auto simp: connect_def)
qed

lemma linkView_effect:
  assumes "linkView a decl l = Inr l'"
  obtains view l1 where
    "bindView a decl l = Inr (view, l1)"
    "typeof view = ''function''"
    "\<not> hasProperty (objectPrototype l) (globalScope l) (viewName decl)"
    "l' = l1\<lparr>displayNames := (displayNames l)(view \<mapsto> ''View('' @ viewName decl @ '')''),
             typeMap := (typeMap l)(viewName decl \<mapsto> ''view''),
             globalScope := (globalScope l)(viewName decl \<mapsto> view)\<rparr>"
    "l1 = l \<or> l1 = l\<lparr>connectCalls := Suc (connectCalls l)\<rparr>"
proof -
  from assms obtain view l1 l2 where
    bind: "bindView a decl l = Inr (view, l1)"
    and label: "setDisplayName (''View('' @ viewName decl @ '')'') view l1 = Inr l2"
    and pub: "publish ''view'' (viewName decl) view l2 = Inr l'"
    by (auto simp: linkView_def split: sum.splits)
  from bindView_Inr [OF bind] have l1: "l1 = l \<or> l1 = l\<lparr>connectCalls := Suc (connectCalls l)\<rparr>"
    by auto
  from setDisplayName_Inr [OF label]
  have l2: "l2 = l1\<lparr>displayNames := (displayNames l1)(view \<mapsto> ''View('' @ viewName decl @ '')'')\<rparr>"
    and fn: "typeof view = ''function''"
    by simp_all
  from pub have fresh: "\<not> hasProperty (objectPrototype l2) (globalScope l2) (viewName decl)"
    and l': "l' = l2\<lparr>typeMap := (typeMap l2)(viewName decl \<mapsto> ''view''),
                    globalScope := (globalScope l2)(viewName decl \<mapsto> view)\<rparr>"
    by (auto simp: publish_def split: if_splits)
  show ?thesis
  proof (rule that [OF bind fn _ _ l1])
    show "\<not> hasProperty (objectPrototype l) (globalScope l) (viewName decl)"
      using fresh l1 l2 by auto
    show "l' = l1\<lparr>displayNames := (displayNames l)(view \<mapsto> ''View('' @ viewName decl @ '')''),
             typeMap := (typeMap l)(viewName decl \<mapsto> ''view''),
             globalScope := (globalScope l)(viewName decl \<mapsto> view)\<rparr>"
      using l' l1 l2 by auto
  qed
qed

section \<open>The reducer combinators\<close>

lemma directCompose_absent [simp]:
  "falsy a \<Longrightarrow> directCompose r a = r" "falsy a \<Longrightarrow> \<not> falsy r \<Longrightarrow> directCompose a r = r"
  by (auto simp: directCompose_def)

lemma reverseCompose_absent [simp]:
  "falsy a \<Longrightarrow> reverseCompose a r = r" "falsy a \<Longrightarrow> \<not> falsy r \<Longrightarrow> reverseCompose r a = r"
  by (auto simp: reverseCompose_def)

text \<open>
  C3, as stated: combining a reducer with an absent operand returns the reducer, and
  combining two absent operands returns a function that leaves every state unchanged.
  The second half fails: \<^verbatim>\<open>reverseCompose(null, null)\<close> and \<^verbatim>\<open>directCompose(null, null)\<close>
  return \<^verbatim>\<open>null\<close>, which is no function; calling the result on a state does not give
  the state back, it is a TypeError.
\<close>

theorem C3_both_absent_counterexample:
  "reverseCompose RNull RNull = RNull \<and> directCompose RNull RNull = RNull
   \<and> callReducer (reverseCompose RNull RNull) (Num 0) (Action (Str ''a'') Undefined) = Inl TypeError
   \<and> callReducer (directCompose RNull RNull) (Num 0) (Action (Str ''a'') Undefined) = Inl TypeError"
  by (simp add: reverseCompose_def directCompose_def)

text \<open>
  C3, amended: for every reducer \<open>f\<close> and every absent operand \<open>a\<close> (\<^verbatim>\<open>null\<close> or
  \<^verbatim>\<open>undefined\<close>), both combinators return \<open>f\<close> unchanged, whichever argument position
  \<open>a\<close> takes; and combining two absent operands returns an absent operand again (the
  second argument of \<open>reverseCompose\<close>, the first of \<open>directCompose\<close>), not a function:
  calling the result is a TypeError.
\<close>

theorem C3_absent_operand:
  "(falsy a \<longrightarrow>
      directCompose a (RFun f) = RFun f \<and> directCompose (RFun f) a = RFun f
    \<and> reverseCompose a (RFun f) = RFun f \<and> reverseCompose (RFun f) a = RFun f)
   \<and> (falsy a \<and> falsy b \<longrightarrow>
      reverseCompose a b = b \<and> directCompose a b = a
    \<and> falsy (reverseCompose a b) \<and> falsy (directCompose a b)
    \<and> callReducer (reverseCompose a b) state act = Inl TypeError
    \<and> callReducer (directCompose a b) state act = Inl TypeError)"
  by (cases a; cases b; simp add: directCompose_def reverseCompose_def)

theorem C3_absent_operand_witness:
  "falsy RUndefined \<and> falsy RNull
   \<and> directCompose RUndefined (RFun (\<lambda>s a. Inr s)) = RFun (\<lambda>s a. Inr s)
   \<and> reverseCompose RNull RUndefined = RUndefined \<and> directCompose RNull RUndefined = RNull"
  using C3_absent_operand [of RUndefined "\<lambda>s a. Inr s" RUndefined]
        C3_absent_operand [of RNull _ RUndefined]
  by simp

section \<open>Invariants of the phases of a link\<close>

text \<open>
  A property of the state that allocating a dependency object, queueing a use, adding
  an enhancer, claiming an action type and publishing a name all keep is kept by every
  builder.
\<close>

lemma build_invariant:
  assumes alloc: "\<And>l. Q l \<Longrightarrow>
      Q (l\<lparr>heap := (heap l)(nextAddress l := Map.empty), nextAddress := Suc (nextAddress l)\<rparr>)"
    and queue: "\<And>target names l. Q l \<Longrightarrow> Q (declareUse target names l)"
    and enh: "\<And>enhancer l. Q l \<Longrightarrow> Q (addEnhancer enhancer l)"
    and claim: "\<And>t n l l'. declareActionType t n l = Inr l' \<Longrightarrow> Q l \<Longrightarrow> Q l'"
    and pub: "\<And>ty n v l l'. publish ty n v l = Inr l' \<Longrightarrow> Q l \<Longrightarrow> Q l'"
  shows "Bundle_include builder b l = Inr (b', l') \<Longrightarrow> Q l \<Longrightarrow> Q l'"
    and "runBuilder ds b l = Inr (b', l') \<Longrightarrow> Q l \<Longrightarrow> Q l'"
    and "call d b l = Inr (b', l') \<Longrightarrow> Q l \<Longrightarrow> Q l'"
proof (induction builder b l and ds b l and d b l arbitrary: b' l' and b' l' and b' l'
    rule: Bundle_include_runBuilder_call.induct)
  case (1 builder b l)
  obtain x y where nb: "new_Bundle l = (x, y)" by (cases "new_Bundle l")
  from 1(2) obtain u where u: "assertNotSealed b = Inr u"
    by (cases "assertNotSealed b") simp_all
  from 1(2) u nb obtain c where run: "runBuilder builder x y = Inr (c, l')"
    by (auto split: sum.splits)
  have "Q y" using nb alloc [OF 1(3)] by (auto simp: new_Bundle_def)
  then show ?case by (rule 1(1) [OF u nb [symmetric] run])
next
  case (2 b l)
  then show ?case by simp
next
  case (3 d ds b l)
  from 3(3) obtain b1 l1 where c: "call d b l = Inr (b1, l1)"
    and rest: "runBuilder ds b1 l1 = Inr (b', l')"
    by (auto split: sum.splits)
  have "Q l1" by (rule 3(1) [OF c 3(4)])
  then show ?case by (rule 3(2) [OF c refl rest])
next
  case (4 builder b l)
  then show ?case by simp
next
  case (5 names b l)
  then have "l' = declareUse (locals (own b)) names l"
    by (auto simp: Bundle_use_def split: sum.splits)
  with queue [OF 5(2)] show ?case by simp
next
  case (6 names b l)
  then have "l' = declareUse (nextAddress l) names
      (l\<lparr>heap := (heap l)(nextAddress l := Map.empty), nextAddress := Suc (nextAddress l)\<rparr>)"
    by (auto simp: Bundle_pack_def Let_def split: sum.splits)
  with queue [OF alloc [OF 6(2)]] show ?case by simp
next
  case (7 name v b l)
  then obtain l1 where p: "publish ''value'' name v l = Inr l1"
    and l': "l' = declareUse (locals (own b)) [name] l1"
    by (auto simp: Bundle_defineValue_def Bundle_use_def split: sum.splits)
  from queue [OF pub [OF p 7(2)]] l' show ?case by simp
next
  case (8 name v b l)
  then obtain l1 where p: "publish ''selector'' name v l = Inr l1"
    and l': "l' = declareUse (locals (own b)) [name] l1"
    by (auto simp: Bundle_defineSelector_def Bundle_use_def split: sum.splits)
  from queue [OF pub [OF p 8(2)]] l' show ?case by simp
next
  case (9 name actionType b l)
  then obtain l1 l2 where t: "declareActionType actionType name l = Inr l1"
    and p: "publish ''action'' name actionType l1 = Inr l2"
    and l': "l' = declareUse (locals (own b)) [name] l2"
    by (auto simp: Bundle_defineAction_def Bundle_use_def split: sum.splits)
  from queue [OF pub [OF p claim [OF t 9(2)]]] l' show ?case by simp
next
  case (10 name selector view b l)
  then have "l' = declareUse (locals (own b)) [name] l"
    by (auto simp: Bundle_defineView_def Bundle_use_def Let_def split: sum.splits)
  with queue [OF 10(2)] show ?case by simp
next
  case (11 name f b l)
  then have "l' = declareUse (locals (own b)) [name] l"
    by (auto simp: Bundle_addReducer_def Bundle_use_def split: sum.splits)
  with queue [OF 11(2)] show ?case by simp
next
  case (12 f b l)
  then show ?case by (auto simp: Bundle_addReducer1_def split: sum.splits)
next
  case (13 f b l)
  then show ?case by (auto simp: Bundle_addEarlyReducer_def split: sum.splits)
next
  case (14 f b l)
  then show ?case by (auto simp: Bundle_addLateReducer_def split: sum.splits)
next
  case (15 saga b l)
  then show ?case by (auto simp: Bundle_addSaga_def split: sum.splits)
next
  case (16 enhancer b l)
  then have "l' = addEnhancer enhancer l"
    by (auto simp: Bundle_addEnhancer_def split: sum.splits)
  with enh [OF 16(2)] show ?case by simp
next
  case (17 callback b l)
  then show ?case by (auto simp: Bundle_defer_def split: sum.splits)
next
  case (18 name b l)
  then show ?case by (simp add: Bundle_lookup_def)
qed

lemma build_typeMap:
  "runBuilder ds b l = Inr (b', l') \<Longrightarrow>
   (\<forall>n. typeMap l n \<noteq> None \<longrightarrow> globalScope l n \<noteq> None) \<Longrightarrow>
   (\<forall>n. typeMap l' n \<noteq> None \<longrightarrow> globalScope l' n \<noteq> None)"
  by (erule build_invariant(2)
        [where Q = "\<lambda>l. \<forall>n. typeMap l n \<noteq> None \<longrightarrow> globalScope l n \<noteq> None", rotated -2])
     (auto simp: declareUse_def addEnhancer_def declareActionType_def publish_def
        split: if_splits)

lemma build_scope_not_inherited:
  "runBuilder ds b l = Inr (b', l') \<Longrightarrow>
   (\<forall>n. globalScope l n \<noteq> None \<longrightarrow> objectPrototype l n = None) \<Longrightarrow>
   (\<forall>n. globalScope l' n \<noteq> None \<longrightarrow> objectPrototype l' n = None)"
  by (erule build_invariant(2)
        [where Q = "\<lambda>l. \<forall>n. globalScope l n \<noteq> None \<longrightarrow> objectPrototype l n = None", rotated -2])
     (auto simp: declareUse_def addEnhancer_def declareActionType_def publish_def
        hasProperty_def split: if_splits)

lemma build_heap_empty:
  "runBuilder ds b l = Inr (b', l') \<Longrightarrow>
   (\<forall>a. heap l a = Map.empty) \<Longrightarrow> (\<forall>a. heap l' a = Map.empty)"
  by (erule build_invariant(2) [where Q = "\<lambda>l. \<forall>a. heap l a = Map.empty", rotated -2])
     (auto simp: declareUse_def addEnhancer_def declareActionType_def publish_def
        split: if_splits)

section \<open>The injection phases never throw\<close>

text \<open>
  Every name with an entry in the type map is in the global scope, from the start of a
  link to its end.  So \<^verbatim>\<open>inject\<close>, called with either of the two filters that \<^verbatim>\<open>link\<close>
  uses, returns normally for every name: for a name without a type the filter makes it
  return at once, and a name with a type is in the global scope.
\<close>

lemma Array_indexOf_undefined: "Array_indexOf ts None = - 1"
  by (induction ts) simp_all

lemma Array_indexOf_mem: "Array_indexOf ts (Some t) \<noteq> - 1 \<Longrightarrow> t \<in> set ts"
  by (induction ts) (auto simp: Let_def split: if_splits)

lemma inject_effect:
  assumes "inject f a name l = Inr l'"
  shows "l' = l
       \<or> (l' = l\<lparr>heap := (heap l)(a := (heap l a)(name \<mapsto>
                    getProperty (objectPrototype l) (globalScope l) name))\<rparr>
          \<and> \<not> (truthy f \<and> - 1 = indexOf f (typeMap l name)))"
  using assms by (auto simp: inject_def split: if_splits)

lemma injectNames_invariant:
  assumes step: "\<And>name l l'. inject f a name l = Inr l' \<Longrightarrow> Q l \<Longrightarrow> Q l'"
  shows "injectNames f a names l = Inr l' \<Longrightarrow> Q l \<Longrightarrow> Q l'"
proof (induction names arbitrary: l)
  case Nil
  then show ?case by simp
next
  case (Cons name names)
  from Cons.prems(1) obtain l1 where one: "inject f a name l = Inr l1"
    and rest: "injectNames f a names l1 = Inr l'"
    by (auto split: sum.splits)
  show ?case by (rule Cons.IH [OF rest step [OF one Cons.prems(2)]])
qed

lemma injectAll_invariant:
  assumes step: "\<And>a name l l'. inject f a name l = Inr l' \<Longrightarrow> Q l \<Longrightarrow> Q l'"
    and run: "injectAll f l = Inr l'" and start: "Q l"
  shows "Q l'"
proof -
  have "injectQueue f q l0 = Inr l' \<Longrightarrow> Q l0 \<Longrightarrow> Q l'" for q l0
  proof (induction q arbitrary: l0)
    case Nil
    then show ?case by simp
  next
    case (Cons e q)
    obtain a names where e: "e = (a, names)" by (cases e)
    from Cons.prems(1) obtain l1 where one: "injectNames f a names l0 = Inr l1"
      and rest: "injectQueue f q l1 = Inr l'"
      by (auto simp: e split: sum.splits)
    have "Q l1"
      by (rule injectNames_invariant [where Q = Q and f = f and a = a, OF _ one Cons.prems(2)])
         (rule step)
    then show ?case by (rule Cons.IH [OF rest])
  qed
  with run start show ?thesis by (simp add: injectAll_def)
qed

lemma injectAll_frame:
  assumes "injectAll f l = Inr l'"
  shows "\<exists>h. l' = l\<lparr>heap := h\<rparr>"
proof (rule injectAll_invariant [where Q = "\<lambda>x. \<exists>h. x = l\<lparr>heap := h\<rparr>", OF _ assms])
  fix a name l1 l2
  assume "inject f a name l1 = Inr l2" "\<exists>h. l1 = l\<lparr>heap := h\<rparr>"
  then show "\<exists>h. l2 = l\<lparr>heap := h\<rparr>"
    using inject_effect [of f a name l1 l2] by auto
next
  have "l = l\<lparr>heap := heap l\<rparr>" by simp
  then show "\<exists>h. l = l\<lparr>heap := h\<rparr>" by blast
qed

lemma inject_total:
  assumes inv: "\<forall>n. typeMap l n \<noteq> None \<longrightarrow> globalScope l n \<noteq> None"
    and f: "f = TypeArray ts \<or> f = TypeString ''views''"
  shows "\<exists>l'. inject f a name l = Inr l'"
proof (cases "typeMap l name")
  case None
  with f show ?thesis
    by (auto simp: inject_def Array_indexOf_undefined)
next
  case (Some t)
  with inv have "globalScope l name \<noteq> None" by auto
  then show ?thesis by (auto simp: inject_def hasProperty_def)
qed

lemma injectNames_total:
  assumes f: "f = TypeArray ts \<or> f = TypeString ''views''"
  shows "\<forall>n. typeMap l n \<noteq> None \<longrightarrow> globalScope l n \<noteq> None \<Longrightarrow>
    \<exists>l'. injectNames f a names l = Inr l'"
proof (induction names arbitrary: l)
  case Nil
  then show ?case by simp
next
  case (Cons name names)
  from inject_total [OF Cons.prems f, of a name] obtain l1 where
    1: "inject f a name l = Inr l1"
    by blast
  from inject_effect [OF 1] Cons.prems
  have "\<forall>n. typeMap l1 n \<noteq> None \<longrightarrow> globalScope l1 n \<noteq> None" by auto
  from Cons.IH [OF this] 1 show ?case by auto
qed

lemma injectNames_typed:
  "injectNames f a names l = Inr l' \<Longrightarrow>
   \<forall>n. typeMap l n \<noteq> None \<longrightarrow> globalScope l n \<noteq> None \<Longrightarrow>
   \<forall>n. typeMap l' n \<noteq> None \<longrightarrow> globalScope l' n \<noteq> None"
proof (erule injectNames_invariant
    [where Q = "\<lambda>l. \<forall>n. typeMap l n \<noteq> None \<longrightarrow> globalScope l n \<noteq> None", rotated])
  fix name l1 l2
  assume "inject f a name l1 = Inr l2" "\<forall>n. typeMap l1 n \<noteq> None \<longrightarrow> globalScope l1 n \<noteq> None"
  then show "\<forall>n. typeMap l2 n \<noteq> None \<longrightarrow> globalScope l2 n \<noteq> None"
    using inject_effect [of f a name l1 l2] by auto
qed

lemma injectQueue_total:
  assumes f: "f = TypeArray ts \<or> f = TypeString ''views''"
  shows "\<forall>n. typeMap l n \<noteq> None \<longrightarrow> globalScope l n \<noteq> None \<Longrightarrow>
    \<exists>l'. injectQueue f q l = Inr l'"
proof (induction q arbitrary: l)
  case Nil
  then show ?case by simp
next
  case (Cons e q)
  obtain a names where e: "e = (a, names)" by (cases e)
  from injectNames_total [OF f Cons.prems, of a names] obtain l1 where
    1: "injectNames f a names l = Inr l1"
    by blast
  from Cons.IH [OF injectNames_typed [OF 1 Cons.prems]] 1 show ?case by (auto simp: e)
qed

lemma injectAll_total:
  assumes "\<forall>n. typeMap l n \<noteq> None \<longrightarrow> globalScope l n \<noteq> None"
    "f = TypeArray ts \<or> f = TypeString ''views''"
  shows "\<exists>l'. injectAll f l = Inr l'"
  unfolding injectAll_def by (rule injectQueue_total [OF assms(2) assms(1)])

lemma linkOwnViews_invariant:
  assumes step: "\<And>decl l l'. linkView a decl l = Inr l' \<Longrightarrow> Q l \<Longrightarrow> Q l'"
  shows "linkOwnViews a decls l = Inr l' \<Longrightarrow> Q l \<Longrightarrow> Q l'"
proof (induction decls arbitrary: l)
  case Nil
  then show ?case by simp
next
  case (Cons decl decls)
  from Cons.prems(1) obtain l1 where one: "linkView a decl l = Inr l1"
    and rest: "linkOwnViews a decls l1 = Inr l'"
    by (auto split: sum.splits)
  show ?case by (rule Cons.IH [OF rest step [OF one Cons.prems(2)]])
qed

lemma linkViews_invariant:
  assumes step: "\<And>a decl l l'. linkView a decl l = Inr l' \<Longrightarrow> Q l \<Longrightarrow> Q l'"
  shows "Bundle_linkViews b l = Inr l' \<Longrightarrow> Q l \<Longrightarrow> Q l'"
    and "linkViewsOfAll bs l = Inr l'' \<Longrightarrow> Q l \<Longrightarrow> Q l''"
proof (induction b l and bs l arbitrary: l' and l'' rule: Bundle_linkViews_linkViewsOfAll.induct)
  case (1 n bs l)
  from 1(2) obtain l1 where own: "linkOwnViews (locals n) (views n) l = Inr l1"
    and kids: "linkViewsOfAll bs l1 = Inr l'"
    by (auto split: sum.splits)
  have "Q l1"
    by (rule linkOwnViews_invariant [where Q = Q and a = "locals n", OF _ own 1(3)]) (rule step)
  then show ?case by (rule 1(1) [OF own kids])
next
  case (2 l)
  then show ?case by simp
next
  case (3 b bs l)
  from 3(3) obtain l1 where first: "Bundle_linkViews b l = Inr l1"
    and rest: "linkViewsOfAll bs l1 = Inr l''"
    by (auto split: sum.splits)
  show ?case by (rule 3(2) [OF first rest 3(1) [OF first 3(4)]])
qed

lemma linkView_typed:
  assumes "linkView a decl l = Inr l'"
    and "\<forall>n. typeMap l n \<noteq> None \<longrightarrow> globalScope l n \<noteq> None"
  shows "\<forall>n. typeMap l' n \<noteq> None \<longrightarrow> globalScope l' n \<noteq> None"
  using assms(1)
proof (rule linkView_effect)
  fix view l1
  assume "l' = l1\<lparr>displayNames := (displayNames l)(view \<mapsto> ''View('' @ viewName decl @ '')''),
             typeMap := (typeMap l)(viewName decl \<mapsto> ''view''),
             globalScope := (globalScope l)(viewName decl \<mapsto> view)\<rparr>"
  with assms(2) show ?thesis by auto
qed

lemma linkView_not_inherited:
  assumes "linkView a decl l = Inr l'"
    and "\<forall>n. globalScope l n \<noteq> None \<longrightarrow> objectPrototype l n = None"
  shows "\<forall>n. globalScope l' n \<noteq> None \<longrightarrow> objectPrototype l' n = None"
  using assms(1)
proof (rule linkView_effect)
  fix view l1
  assume "l' = l1\<lparr>displayNames := (displayNames l)(view \<mapsto> ''View('' @ viewName decl @ '')''),
             typeMap := (typeMap l)(viewName decl \<mapsto> ''view''),
             globalScope := (globalScope l)(viewName decl \<mapsto> view)\<rparr>"
    and "l1 = l \<or> l1 = l\<lparr>connectCalls := Suc (connectCalls l)\<rparr>"
    and "\<not> hasProperty (objectPrototype l) (globalScope l) (viewName decl)"
  with assms(2) show ?thesis by (auto simp: hasProperty_def)
qed

lemma linkView_frame:
  assumes "linkView a decl l = Inr l'"
  shows "heap l' = heap l \<and> objectPrototype l' = objectPrototype l \<and> hasProxy l' = hasProxy l"
  using assms
proof (rule linkView_effect)
  fix view l1
  assume "l' = l1\<lparr>displayNames := (displayNames l)(view \<mapsto> ''View('' @ viewName decl @ '')''),
             typeMap := (typeMap l)(viewName decl \<mapsto> ''view''),
             globalScope := (globalScope l)(viewName decl \<mapsto> view)\<rparr>"
    and "l1 = l \<or> l1 = l\<lparr>connectCalls := Suc (connectCalls l)\<rparr>"
  then show ?thesis by auto
qed

lemma linkView_typeMap_grows:
  assumes "linkView a decl l = Inr l'"
    and "\<forall>n. typeMap l n \<noteq> None \<longrightarrow> globalScope l n \<noteq> None"
    and "typeMap l n = Some t"
  shows "typeMap l' n = Some t"
  using assms(1)
proof (rule linkView_effect)
  fix view l1
  assume "l' = l1\<lparr>displayNames := (displayNames l)(view \<mapsto> ''View('' @ viewName decl @ '')''),
             typeMap := (typeMap l)(viewName decl \<mapsto> ''view''),
             globalScope := (globalScope l)(viewName decl \<mapsto> view)\<rparr>"
    and "\<not> hasProperty (objectPrototype l) (globalScope l) (viewName decl)"
  with assms(2,3) show ?thesis by (auto simp: hasProperty_def)
qed

lemma linkViews_typed:
  assumes run: "Bundle_linkViews b l = Inr l'"
    and inv: "\<forall>n. typeMap l n \<noteq> None \<longrightarrow> globalScope l n \<noteq> None"
  shows "\<forall>n. typeMap l' n \<noteq> None \<longrightarrow> globalScope l' n \<noteq> None"
proof (rule linkViews_invariant(1)
    [where Q = "\<lambda>l. \<forall>n. typeMap l n \<noteq> None \<longrightarrow> globalScope l n \<noteq> None", OF _ run inv])
  fix a decl l1 l2
  assume "linkView a decl l1 = Inr l2" "\<forall>n. typeMap l1 n \<noteq> None \<longrightarrow> globalScope l1 n \<noteq> None"
  then show "\<forall>n. typeMap l2 n \<noteq> None \<longrightarrow> globalScope l2 n \<noteq> None"
    by (rule linkView_typed)
qed

lemma linkViews_not_inherited:
  assumes run: "Bundle_linkViews b l = Inr l'"
    and inv: "\<forall>n. globalScope l n \<noteq> None \<longrightarrow> objectPrototype l n = None"
  shows "\<forall>n. globalScope l' n \<noteq> None \<longrightarrow> objectPrototype l' n = None"
proof (rule linkViews_invariant(1)
    [where Q = "\<lambda>l. \<forall>n. globalScope l n \<noteq> None \<longrightarrow> objectPrototype l n = None",
     OF _ run inv])
  fix a decl l1 l2
  assume "linkView a decl l1 = Inr l2"
    "\<forall>n. globalScope l1 n \<noteq> None \<longrightarrow> objectPrototype l1 n = None"
  then show "\<forall>n. globalScope l2 n \<noteq> None \<longrightarrow> objectPrototype l2 n = None"
    by (rule linkView_not_inherited)
qed

lemma linkViews_frame:
  assumes "Bundle_linkViews b l = Inr l'"
  shows "heap l' = heap l \<and> objectPrototype l' = objectPrototype l \<and> hasProxy l' = hasProxy l"
proof (rule linkViews_invariant(1)
    [where Q = "\<lambda>x. heap x = heap l \<and> objectPrototype x = objectPrototype l \<and> hasProxy x = hasProxy l",
     OF _ assms])
  fix a decl l1 l2
  assume "linkView a decl l1 = Inr l2"
    "heap l1 = heap l \<and> objectPrototype l1 = objectPrototype l \<and> hasProxy l1 = hasProxy l"
  then show "heap l2 = heap l \<and> objectPrototype l2 = objectPrototype l \<and> hasProxy l2 = hasProxy l"
    using linkView_frame [of a decl l1 l2] by simp
qed simp

lemma linkViews_typeMap_grows:
  assumes run: "Bundle_linkViews b l = Inr l'"
    and typed: "\<forall>n. typeMap l n \<noteq> None \<longrightarrow> globalScope l n \<noteq> None"
    and t: "typeMap l n = Some t"
  shows "typeMap l' n = Some t"
proof -
  have "(\<forall>n. typeMap l' n \<noteq> None \<longrightarrow> globalScope l' n \<noteq> None) \<and> typeMap l' n = Some t"
  proof (rule linkViews_invariant(1)
      [where Q = "\<lambda>x. (\<forall>n. typeMap x n \<noteq> None \<longrightarrow> globalScope x n \<noteq> None) \<and> typeMap x n = Some t",
       OF _ run])
    fix a decl l1 l2
    assume "linkView a decl l1 = Inr l2"
      "(\<forall>n. typeMap l1 n \<noteq> None \<longrightarrow> globalScope l1 n \<noteq> None) \<and> typeMap l1 n = Some t"
    then show "(\<forall>n. typeMap l2 n \<noteq> None \<longrightarrow> globalScope l2 n \<noteq> None) \<and> typeMap l2 n = Some t"
      using linkView_typed [of a decl l1 l2] linkView_typeMap_grows [of a decl l1 l2 n t] by blast
  next
    show "(\<forall>n. typeMap l n \<noteq> None \<longrightarrow> globalScope l n \<noteq> None) \<and> typeMap l n = Some t"
      using typed t by simp
  qed
  then show ?thesis by simp
qed

lemma link_inject_never_throws:
  assumes nb: "new_Bundle (initial px proto) = (root0, l0)"
    and run: "runBuilder builder root0 l0 = Inr (root1, l1)"
  shows "\<exists>l2. injectAll (TypeArray [''action'', ''selector'', ''value'']) l1 = Inr l2
     \<and> (\<forall>l3. Bundle_linkViews (Bundle_seal root1) l2 = Inr l3 \<longrightarrow>
          (\<exists>l4. injectAll (TypeString ''views'') l3 = Inr l4))"
proof -
  have "\<forall>n. typeMap l0 n \<noteq> None \<longrightarrow> globalScope l0 n \<noteq> None"
    using nb by (auto simp: new_Bundle_def initial_def)
  then have inv1: "\<forall>n. typeMap l1 n \<noteq> None \<longrightarrow> globalScope l1 n \<noteq> None"
    by (rule build_typeMap [OF run])
  from injectAll_total [OF inv1, of "TypeArray [''action'', ''selector'', ''value'']"]
  obtain l2 where l2: "injectAll (TypeArray [''action'', ''selector'', ''value'']) l1 = Inr l2"
    by blast
  from injectAll_frame [OF l2] obtain h where "l2 = l1\<lparr>heap := h\<rparr>" by blast
  with inv1 have inv2: "\<forall>n. typeMap l2 n \<noteq> None \<longrightarrow> globalScope l2 n \<noteq> None"
    by simp
  have "\<exists>l4. injectAll (TypeString ''views'') l3 = Inr l4"
    if "Bundle_linkViews (Bundle_seal root1) l2 = Inr l3" for l3
    using injectAll_total [OF linkViews_typed [OF that inv2], of "TypeString ''views''"]
    by blast
  with l2 show ?thesis by blast
qed

section \<open>The log of the deferred callbacks\<close>

lemma runOwnDefers_log:
  "list_all (\<lambda>cb. typeof cb = ''function'') cbs \<Longrightarrow>
   runOwnDefers cbs log = Inr (log @ map (\<lambda>cb. (cb, [])) cbs)"
  by (induction cbs arbitrary: log) simp_all

lemma runDefers_log:
  shows "list_all (\<lambda>cb. typeof cb = ''function'') (allDefers b) \<Longrightarrow>
      Bundle_runDefers args b log = Inr (log @ map (\<lambda>cb. (cb, [])) (allDefers b))"
    and "list_all (\<lambda>cb. typeof cb = ''function'') (concat (map allDefers bs)) \<Longrightarrow>
      runDefersOfAll bs log = Inr (log @ map (\<lambda>cb. (cb, [])) (concat (map allDefers bs)))"
proof (induction args b log and bs log rule: Bundle_runDefers_runDefersOfAll.induct)
  case (1 arguments n bs log)
  then show ?case by (simp add: runOwnDefers_log)
next
  case (2 log)
  then show ?case by simp
next
  case (3 b bs log)
  then show ?case by simp
qed

lemma finalize_log:
  "list_all (\<lambda>cb. typeof cb = ''function'') (allDefers (rootBundle r)) \<Longrightarrow>
   finalize r args = Inr (map (\<lambda>cb. (cb, [])) (allDefers (rootBundle r)))"
  by (simp add: finalize_def runDefers_log(1))

section \<open>Evaluating the model on a concrete builder\<close>

lemmas link_eval = link_def new_Bundle_def initial_def Bundle_use_def Bundle_pack_def
  Bundle_defineValue_def Bundle_defineSelector_def Bundle_defineAction_def Bundle_defineView_def
  Bundle_addReducer_def Bundle_addReducer1_def Bundle_addEarlyReducer_def
  Bundle_addLateReducer_def Bundle_addSaga_def Bundle_addEnhancer_def Bundle_defer_def
  Bundle_lookup_def assertNotSealed_def declareUse_def injectAll_def inject_def publish_def
  declareActionType_def addEnhancer_def hasProperty_def getProperty_def modify_def lookup_def
  safeGet_def linkView_def bindView_def resolveSelector_def connect_def

section \<open>Sealing\<close>

lemma sealed_nodes_seal: "b \<in> set (nodes (Bundle_seal root)) \<Longrightarrow> sealed (own b)"
proof (induction root arbitrary: b rule: Bundle_seal.induct)
  case (1 n bs)
  then show ?case by auto
qed

lemma assertNotSealed_sealed: "sealed (own b) \<Longrightarrow> assertNotSealed b = Inl DirectiveAfterSeal"
  by (simp add: assertNotSealed_def)

lemma link_rootBundle_sealed:
  "link px proto builder = Inr r \<Longrightarrow> \<exists>root. rootBundle r = Bundle_seal root"
  by (auto simp: link_def Let_def split: prod.splits sum.splits)

text \<open>
  C4, as stated: after sealing, every public operation of a bundle node, \<^verbatim>\<open>lookup\<close>
  included, fails with the already-sealed error.  \<^verbatim>\<open>lookup\<close> does not: it makes no call
  of \<^verbatim>\<open>_assertNotSealed\<close>.  On the sealed root of a linked tree that defines \<open>x\<close> as 1,
  \<^verbatim>\<open>lookup('x')\<close> returns 1.
\<close>

theorem C4_lookup_after_seal_counterexample:
  "(case link True Map.empty [DefineValue ''x'' (Num 1)] of
      Inl e \<Rightarrow> False
    | Inr r \<Rightarrow> sealed (own (rootBundle r))
             \<and> Bundle_lookup ''x'' (rootBundle r) (scope r) = Inr (Num 1)
             \<and> Bundle_lookup ''x'' (rootBundle r) (scope r) \<noteq> Inl DirectiveAfterSeal)"
  by (simp add: link_eval)

text \<open>
  C4, amended: on every node of a sealed tree (and the tree that \<^verbatim>\<open>link\<close> keeps is
  sealed, \<open>link_rootBundle_sealed\<close>), each of the declaring operations \<^verbatim>\<open>include\<close>,
  \<^verbatim>\<open>use\<close>, \<^verbatim>\<open>pack\<close>, \<^verbatim>\<open>defineValue\<close>, \<^verbatim>\<open>defineSelector\<close>, \<^verbatim>\<open>defineAction\<close>, \<^verbatim>\<open>defineView\<close>,
  \<^verbatim>\<open>addReducer\<close> (both forms), \<^verbatim>\<open>addEarlyReducer\<close>, \<^verbatim>\<open>addLateReducer\<close>, \<^verbatim>\<open>addSaga\<close>,
  \<^verbatim>\<open>addEnhancer\<close> and \<^verbatim>\<open>defer\<close> fails with the already-sealed error, whatever its
  arguments; \<^verbatim>\<open>lookup\<close> is not guarded and still returns the value that the global
  namespace holds.
\<close>

theorem C4_sealed_rejects_directives:
  assumes "b \<in> set (nodes (Bundle_seal root))"
  shows "Bundle_include builder b l = Inl DirectiveAfterSeal
       \<and> Bundle_use names b l = Inl DirectiveAfterSeal
       \<and> Bundle_pack names b l = Inl DirectiveAfterSeal
       \<and> Bundle_defineValue name v b l = Inl DirectiveAfterSeal
       \<and> Bundle_defineSelector name v b l = Inl DirectiveAfterSeal
       \<and> Bundle_defineAction name v b l = Inl DirectiveAfterSeal
       \<and> Bundle_defineView name selector view b l = Inl DirectiveAfterSeal
       \<and> Bundle_addReducer name f b l = Inl DirectiveAfterSeal
       \<and> Bundle_addReducer1 r b l = Inl DirectiveAfterSeal
       \<and> Bundle_addEarlyReducer r b l = Inl DirectiveAfterSeal
       \<and> Bundle_addLateReducer r b l = Inl DirectiveAfterSeal
       \<and> Bundle_addSaga v b l = Inl DirectiveAfterSeal
       \<and> Bundle_addEnhancer v b l = Inl DirectiveAfterSeal
       \<and> Bundle_defer v b l = Inl DirectiveAfterSeal
       \<and> Bundle_lookup name b l = Inr (lookup name l)"
proof -
  have s: "assertNotSealed b = Inl DirectiveAfterSeal"
    using assms by (simp add: sealed_nodes_seal assertNotSealed_sealed)
  show ?thesis
    by (simp add: s Bundle_use_def Bundle_pack_def Bundle_defineValue_def
        Bundle_defineSelector_def Bundle_defineAction_def Bundle_defineView_def
        Bundle_addReducer_def Bundle_addReducer1_def Bundle_addEarlyReducer_def
        Bundle_addLateReducer_def Bundle_addSaga_def Bundle_addEnhancer_def Bundle_defer_def
        Bundle_lookup_def)
qed

theorem C4_sealed_rejects_directives_witness:
  "bundles (fst sealedExample) \<noteq> []
   \<and> hd (bundles (fst sealedExample)) \<in> set (nodes (fst sealedExample))
   \<and> Bundle_defer (Function 2) (hd (bundles (fst sealedExample))) (snd sealedExample)
       = Inl DirectiveAfterSeal
   \<and> Bundle_include [] (hd (bundles (fst sealedExample))) (snd sealedExample)
       = Inl DirectiveAfterSeal
   \<and> Bundle_lookup ''x'' (hd (bundles (fst sealedExample))) (snd sealedExample) = Inr (Num 1)"
proof -
  have ex: "fst sealedExample = Bundle_seal (Bundle
      \<lparr>locals = 0, earlyReducers = [], actionReducers = [], lateReducers = [], views = [],
       defers = [], sagas = [], sealed = False\<rparr>
      [Bundle \<lparr>locals = 1, earlyReducers = [], actionReducers = [], lateReducers = [],
         views = [], defers = [Function 1], sagas = [], sealed = False\<rparr> []])"
    by (simp add: sealedExample_def link_eval)
  have mem: "hd (bundles (fst sealedExample)) \<in> set (nodes (Bundle_seal (Bundle
      \<lparr>locals = 0, earlyReducers = [], actionReducers = [], lateReducers = [], views = [],
       defers = [], sagas = [], sealed = False\<rparr>
      [Bundle \<lparr>locals = 1, earlyReducers = [], actionReducers = [], lateReducers = [],
         views = [], defers = [Function 1], sagas = [], sealed = False\<rparr> []])))"
    by (simp add: ex)
  have look: "lookup ''x'' (snd sealedExample) = Num 1"
    by (simp add: sealedExample_def link_eval)
  show ?thesis
    using C4_sealed_rejects_directives [OF mem, where l = "snd sealedExample"
        and builder = "[]" and name = "''x''" and v = "Function 2"] mem
    by (simp add: ex look)
qed

section \<open>Reads of names that are not there\<close>

text \<open>
  C10: for a name that is not in the global namespace, \<^verbatim>\<open>lookup(name)\<close> of a bundle
  node returns \<^verbatim>\<open>undefined\<close> and raises nothing, on a sealed node as on any other;
  the same read through the exported scope fails with the undefined-name error, and a
  read of a name that a dependency object does not hold fails with the
  undeclared-dependency error.  The last two are reads through the safe proxy, so they
  fail where the runtime has \<^verbatim>\<open>Proxy\<close>.
\<close>

theorem C10_lookup_absent:
  "\<not> hasProperty (objectPrototype l) (globalScope l) name \<longrightarrow>
     Bundle_lookup name b l = Inr Undefined
   \<and> (hasProxy l \<longrightarrow>
        safeGet (hasProxy l) (objectPrototype l) UseOfUndefinedName (globalScope l) name
          = Inl (UseOfUndefinedName name))
   \<and> (hasProxy l \<and> \<not> hasProperty (objectPrototype l) (heap l a) name \<longrightarrow>
        locals_get l a name = Inl (UseOfUndeclaredDependency name))"
  by (simp add: Bundle_lookup_def lookup_def getProperty_def hasProperty_def safeGet_def
      locals_get_def split: option.splits)

theorem C10_lookup_absent_witness:
  "\<not> hasProperty (objectPrototype (initial True Map.empty))
        (globalScope (initial True Map.empty)) ''x''
   \<and> hasProxy (initial True Map.empty)
   \<and> Bundle_lookup ''x'' (fst (new_Bundle (initial True Map.empty))) (initial True Map.empty)
       = Inr Undefined
   \<and> locals_get (initial True Map.empty) 0 ''x'' = Inl (UseOfUndeclaredDependency ''x'')"
  using C10_lookup_absent [of "initial True Map.empty" "''x''"
      "fst (new_Bundle (initial True Map.empty))" 0]
  by (simp add: initial_def hasProperty_def)

section \<open>Names that nothing publishes\<close>

text \<open>
  C1 says that a \<^verbatim>\<open>use\<close> or \<^verbatim>\<open>pack\<close> of a name that no bundle publishes makes \<^verbatim>\<open>link\<close>
  fail with the undefined-dependency error.  The code does not: \<^verbatim>\<open>inject\<close> looks the
  type of the name up first, finds \<^verbatim>\<open>undefined\<close>, which neither filter contains, and
  returns before it reaches the test that throws.  Here \<^verbatim>\<open>link\<close> returns normally for
  a root builder whose only call is \<^verbatim>\<open>use('x')\<close>, and for one whose only call is
  \<^verbatim>\<open>pack('x')\<close>; the name is still queued and still not in the global scope.  For
  every builder, neither injection phase of \<^verbatim>\<open>link\<close> throws (\<open>link_inject_never_throws\<close>).
\<close>

theorem C1_use_of_unpublished_name_links:
  "(case link True Map.empty [Use [''x'']] of Inl e \<Rightarrow> False
    | Inr r \<Rightarrow> globalScope (scope r) ''x'' = None \<and> useQueue (scope r) = [(0, [''x''])])
   \<and> (case link True Map.empty [Pack [''x'']] of Inl e \<Rightarrow> False
    | Inr r \<Rightarrow> globalScope (scope r) ''x'' = None \<and> useQueue (scope r) = [(1, [''x''])])"
  by (simp add: link_eval)

section \<open>Deferred callbacks\<close>

text \<open>
  C2 says that \<^verbatim>\<open>finalize(...args)\<close> passes its arguments to every deferred callback.
  The callbacks do run in depth-first order, but each is invoked with no argument:
  \<^verbatim>\<open>finalize(7)\<close> on a root with one callback and a child with another invokes both with
  an empty argument list.  For every tree and every argument list the log is the
  callbacks in depth-first order, each with no argument (\<open>finalize_log\<close>).
\<close>

theorem C2_finalize_drops_arguments:
  "(case link True Map.empty [Defer (Function 1), Include [Defer (Function 2)]] of
      Inl e \<Rightarrow> False
    | Inr r \<Rightarrow> finalize r [Num 7]
               = Inr [(Function 1, []), (Function 2, [])])"
  by (simp add: link_eval finalize_def)

section \<open>The order of the composed reducers\<close>

lemma andThen_simps [simp]:
  "andThen (Inl e) f = Inl e" "andThen (Inr x) f = f x"
  by (simp_all add: andThen_def)

lemma andThen_Inr [simp]: "andThen m Inr = m"
  by (cases m) simp_all

lemma andThen_assoc: "andThen (andThen m f) g = andThen m (\<lambda>x. andThen (f x) g)"
  by (cases m) simp_all

lemma stage_reverseCompose:
  "stage (reverseCompose p q) s a = andThen (stage p s a) (\<lambda>s'. stage q s' a)"
  by (cases p; cases q) (simp_all add: stage_def reverseCompose_def composed_def andThen_def split: sum.splits)

lemma stage_directCompose:
  "stage (directCompose q p) s a = andThen (stage p s a) (\<lambda>s'. stage q s' a)"
  by (cases p; cases q) (simp_all add: stage_def directCompose_def composed_def andThen_def split: sum.splits)

lemma applyAll_append:
  "applyAll (xs @ ys) s a = andThen (applyAll xs s a) (\<lambda>s'. applyAll ys s' a)"
  by (induction xs arbitrary: s) (simp_all add: andThen_assoc)

lemma stage_foldl_reverseCompose:
  "stage (foldl reverseCompose acc rs) s a = andThen (stage acc s a) (\<lambda>s'. applyAll rs s' a)"
proof (induction rs arbitrary: acc)
  case Nil
  then show ?case by simp
next
  case (Cons r rs)
  then show ?case by (simp add: stage_reverseCompose andThen_assoc)
qed

lemma stage_foldl_directCompose:
  "stage (foldl directCompose acc rs) s a = andThen (applyAll (rev rs) s a) (\<lambda>s'. stage acc s' a)"
proof (induction rs arbitrary: acc)
  case Nil
  then show ?case by simp
next
  case (Cons r rs)
  then show ?case by (simp add: stage_directCompose applyAll_append andThen_assoc)
qed

lemma stage_simps [simp]:
  "stage RNull s a = Inr s" "stage RUndefined s a = Inr s" "stage (RFun f) s a = f s a"
  by (simp_all add: stage_def)

lemma applyAll_map_early:
  "(\<And>b s. b \<in> set bs \<Longrightarrow> stage (f b) s a = applyAll (g b) s a) \<Longrightarrow>
   applyAll (map f bs) s a = applyAll (concat (map g bs)) s a"
  by (induction bs arbitrary: s) (simp_all add: applyAll_append)

lemma stage_earlyReducer: "stage (Bundle_earlyReducer b) s a = applyAll (allEarly b) s a"
proof (induction b arbitrary: s rule: Bundle_earlyReducer.induct)
  case (1 n bs)
  have "applyAll (map Bundle_earlyReducer bs) s' a = applyAll (concat (map allEarly bs)) s' a" for s'
    by (rule applyAll_map_early) (simp add: 1)
  then show ?case
    by (simp add: stage_foldl_reverseCompose applyAll_append)
qed

lemma applyAll_rev_map_late:
  "(\<And>b s. b \<in> set bs \<Longrightarrow> stage (f b) s a = applyAll (rev (g b)) s a) \<Longrightarrow>
   applyAll (rev (map f bs)) s a = applyAll (rev (concat (map g bs))) s a"
  by (induction bs arbitrary: s) (simp_all add: applyAll_append)

lemma stage_lateReducer: "stage (Bundle_lateReducer b) s a = applyAll (rev (allLate b)) s a"
proof (induction b arbitrary: s rule: Bundle_lateReducer.induct)
  case (1 n bs)
  have "applyAll (rev (map Bundle_lateReducer bs)) s' a
        = applyAll (rev (concat (map allLate bs))) s' a" for s'
    by (rule applyAll_rev_map_late) (simp add: 1)
  then show ?case
    by (simp add: stage_foldl_directCompose applyAll_append)
qed

lemma falsy_reverseCompose [simp]: "falsy (reverseCompose p q) \<longleftrightarrow> falsy p \<and> falsy q"
  by (cases p; cases q) (simp_all add: reverseCompose_def)

lemma falsy_directCompose [simp]: "falsy (directCompose p q) \<longleftrightarrow> falsy p \<and> falsy q"
  by (cases p; cases q) (simp_all add: directCompose_def)

lemma falsy_foldl_reverseCompose:
  "falsy (foldl reverseCompose acc rs) \<longleftrightarrow> falsy acc \<and> (\<forall>r \<in> set rs. falsy r)"
proof (induction rs arbitrary: acc)
  case Nil
  then show ?case by simp
next
  case (Cons r rs)
  then show ?case by auto
qed

lemma falsy_foldl_directCompose:
  "falsy (foldl directCompose acc rs) \<longleftrightarrow> falsy acc \<and> (\<forall>r \<in> set rs. falsy r)"
proof (induction rs arbitrary: acc)
  case Nil
  then show ?case by simp
next
  case (Cons r rs)
  then show ?case by auto
qed

lemma falsy_earlyReducer: "falsy (Bundle_earlyReducer b) \<longleftrightarrow> (\<forall>r \<in> set (allEarly b). falsy r)"
  by (induction b rule: Bundle_earlyReducer.induct) (auto simp: falsy_foldl_reverseCompose)

lemma falsy_lateReducer: "falsy (Bundle_lateReducer b) \<longleftrightarrow> (\<forall>r \<in> set (allLate b). falsy r)"
  by (induction b rule: Bundle_lateReducer.induct) (auto simp: falsy_foldl_directCompose)

lemma callReducer_stage: "\<not> falsy r \<Longrightarrow> callReducer r s a = stage r s a"
  by (simp add: stage_def)

lemma link_reducer:
  assumes "link px proto builder = Inr r"
  shows "reducer r = foldl reverseCompose RNull
           [Bundle_earlyReducer (rootBundle r), RFun (actionReducer (actions r)),
            Bundle_lateReducer (rootBundle r)]"
  using assms by (auto simp: link_def Let_def split: prod.splits sum.splits)

text \<open>
  C5: let A be included before B, let each add one early and one late reducer, and
  let their parent add none.  Then the early stage of the parent applies A's early
  reducer to the state and B's to the result; the late stage applies B's late reducer
  first and A's to the result; and the reducer that \<^verbatim>\<open>link\<close> returns applies the early
  stage, then the action-dispatch reducer, then the late stage.  A reducer that throws
  ends the chain with its exception.
\<close>

theorem C5_reducer_order:
  assumes "link px proto builder = Inr r"
    and "bundles (rootBundle r) = [A, B]"
    and "earlyReducers (own (rootBundle r)) = []" and "lateReducers (own (rootBundle r)) = []"
    and "allEarly A = [RFun eA]" and "allEarly B = [RFun eB]"
    and "allLate A = [RFun lA]" and "allLate B = [RFun lB]"
  shows "callReducer (Bundle_earlyReducer (rootBundle r)) state action
           = andThen (eA state action) (\<lambda>state'. eB state' action)
       \<and> callReducer (Bundle_lateReducer (rootBundle r)) state action
           = andThen (lB state action) (\<lambda>state'. lA state' action)
       \<and> callReducer (reducer r) state action
           = andThen (callReducer (Bundle_earlyReducer (rootBundle r)) state action) (\<lambda>s1.
             andThen (actionReducer (actions r) s1 action) (\<lambda>s2.
               callReducer (Bundle_lateReducer (rootBundle r)) s2 action))"
proof -
  obtain n where root: "rootBundle r = Bundle n [A, B]"
    using assms(2) by (cases "rootBundle r") simp
  have n: "earlyReducers n = []" "lateReducers n = []"
    using assms(3,4) by (simp_all add: root)
  have allE: "allEarly (rootBundle r) = [RFun eA, RFun eB]"
    by (simp add: root n assms)
  have allL: "allLate (rootBundle r) = [RFun lA, RFun lB]"
    by (simp add: root n assms)
  have nfE: "\<not> falsy (Bundle_earlyReducer (rootBundle r))"
    by (simp add: falsy_earlyReducer allE)
  have nfL: "\<not> falsy (Bundle_lateReducer (rootBundle r))"
    by (simp add: falsy_lateReducer allL)
  have early: "callReducer (Bundle_earlyReducer (rootBundle r)) s a
           = andThen (eA s a) (\<lambda>s'. eB s' a)" for s a
    by (simp add: callReducer_stage [OF nfE] stage_earlyReducer allE)
  have late: "callReducer (Bundle_lateReducer (rootBundle r)) s a
           = andThen (lB s a) (\<lambda>s'. lA s' a)" for s a
    by (simp add: callReducer_stage [OF nfL] stage_lateReducer allL)
  have nfR: "\<not> falsy (reducer r)"
    by (simp add: link_reducer [OF assms(1)])
  have "callReducer (reducer r) state action = stage (reducer r) state action"
    by (rule callReducer_stage [OF nfR])
  also have "\<dots> = andThen (stage (Bundle_earlyReducer (rootBundle r)) state action) (\<lambda>s1.
             andThen (actionReducer (actions r) s1 action) (\<lambda>s2.
               stage (Bundle_lateReducer (rootBundle r)) s2 action))"
    by (simp add: link_reducer [OF assms(1)] stage_reverseCompose andThen_assoc)
  finally show ?thesis
    using early late by (simp add: callReducer_stage [OF nfE] callReducer_stage [OF nfL])
qed

theorem C5_reducer_order_witness:
  "\<not> isl (link True Map.empty orderExample)
   \<and> callReducer (reducer (projr (link True Map.empty orderExample))) (Str [])
        (Action (Str ''X'') Undefined)
       = Inr (Str ''eAeBrXlBlA'')"
proof -
  define r where "r = projr (link True Map.empty orderExample)"
  have ok: "\<not> isl (link True Map.empty orderExample)"
    by (simp add: orderExample_def link_eval)
  have h1: "link True Map.empty orderExample = Inr r"
    using ok by (cases "link True Map.empty orderExample") (simp_all add: r_def)
  define A where "A = hd (bundles (rootBundle r))"
  define B where "B = hd (tl (bundles (rootBundle r)))"
  have h2: "bundles (rootBundle r) = [A, B]"
    by (simp add: A_def B_def r_def orderExample_def link_eval)
  have h3: "earlyReducers (own (rootBundle r)) = []" "lateReducers (own (rootBundle r)) = []"
    by (simp_all add: r_def orderExample_def link_eval)
  have h4: "allEarly A = [RFun (tag ''eA'')]" "allEarly B = [RFun (tag ''eB'')]"
    "allLate A = [RFun (tag ''lA'')]" "allLate B = [RFun (tag ''lB'')]"
    by (simp_all add: A_def B_def r_def orderExample_def link_eval)
  have act: "actionReducer (actions r) s (Action (Str ''X'') Undefined) = tag ''rX'' s (Action (Str ''X'') Undefined)" for s
    by (simp add: r_def orderExample_def link_eval actionReducer_def Map_get_def
        locals_get_def reverseCompose_def)
  have "callReducer (reducer r) (Str []) (Action (Str ''X'') Undefined)
        = Inr (Str ''eAeBrXlBlA'')"
    using C5_reducer_order [OF h1 h2 h3 h4, of "Str []" "Action (Str ''X'') Undefined"]
      C5_reducer_order [OF h1 h2 h3 h4, of "Str ''eAeBrX''" "Action (Str ''X'') Undefined"]
    by (simp add: act tag_def)
  then show ?thesis using ok by (simp add: r_def)
qed

section \<open>The chain of reducers of one action type\<close>

lemma safeGet_Inr: "safeGet px proto onError target p = Inr v \<Longrightarrow> v = getProperty proto target p"
  by (auto simp: safeGet_def split: if_splits)

lemma reducersFor_append [simp]: "reducersFor t (xs @ ys) = reducersFor t xs @ reducersFor t ys"
  by (simp add: reducersFor_def)

lemma reducersFor_Nil [simp]: "reducersFor t [] = []"
  by (simp add: reducersFor_def)

lemma Map_get_upd: "Map_get (m(k \<mapsto> v)) t = (if t = k then v else Map_get m t)"
  by (simp add: Map_get_def)

lemma addActionReducers_Map_get:
  "addActionReducers a rs l m = Inr m' \<Longrightarrow>
   Map_get m' t = foldl reverseCompose (Map_get m t)
     (map RFun (reducersFor t
        (map (\<lambda>(name, reducer). (getProperty (objectPrototype l) (heap l a) name, reducer)) rs)))"
proof (induction rs arbitrary: m)
  case Nil
  then show ?case by simp
next
  case (Cons nr rs)
  obtain name f where nr: "nr = (name, f)" by (cases nr)
  from Cons.prems obtain actionType where
    get: "safeGet (hasProxy l) (objectPrototype l) UseOfUndeclaredDependency (heap l a) name
            = Inr actionType"
    and rest: "addActionReducers a rs l
        (m(actionType \<mapsto> reverseCompose (Map_get m actionType) (RFun f))) = Inr m'"
    by (auto simp: nr Let_def split: sum.splits)
  have at: "actionType = getProperty (objectPrototype l) (heap l a) name"
    by (rule safeGet_Inr [OF get])
  have IH: "Map_get m' t = foldl reverseCompose
      (if t = actionType then reverseCompose (Map_get m actionType) (RFun f) else Map_get m t)
      (map RFun (reducersFor t
        (map (\<lambda>(name, reducer). (getProperty (objectPrototype l) (heap l a) name, reducer)) rs)))"
    using Cons.IH [OF rest] unfolding Map_get_upd .
  show ?case
  proof (cases "t = actionType")
    case True
    then show ?thesis using IH at by (simp add: nr reducersFor_def)
  next
    case False
    then show ?thesis using IH at by (simp add: nr reducersFor_def)
  qed
qed

lemma buildActionMap_Map_get:
  shows "Bundle_buildActionMap b l m = Inr m' \<Longrightarrow>
      Map_get m' t = foldl reverseCompose (Map_get m t)
        (map RFun (reducersFor t (keyedReducers l b)))"
    and "buildActionMapOfAll bs l m = Inr m'' \<Longrightarrow>
      Map_get m'' t = foldl reverseCompose (Map_get m t)
        (map RFun (reducersFor t (concat (map (keyedReducers l) bs))))"
proof (induction b l m and bs l m arbitrary: m' and m''
    rule: Bundle_buildActionMap_buildActionMapOfAll.induct)
  case (1 n bs l actionMap)
  from 1(2) obtain m1 where
    own: "addActionReducers (locals n) (actionReducers n) l actionMap = Inr m1"
    and kids: "buildActionMapOfAll bs l m1 = Inr m'"
    by (auto split: sum.splits)
  show ?case
    using 1(1) [OF own kids] addActionReducers_Map_get [OF own, of t] by simp
next
  case (2 l actionMap)
  then show ?case by simp
next
  case (3 b bs l actionMap)
  from 3(3) obtain m1 where first: "Bundle_buildActionMap b l actionMap = Inr m1"
    and rest: "buildActionMapOfAll bs l m1 = Inr m''"
    by (auto split: sum.splits)
  show ?case
    using 3(1) [OF first] 3(2) [OF first rest] by simp
qed

lemma link_actions:
  "link px proto builder = Inr r \<Longrightarrow>
   Bundle_buildActionMap (rootBundle r) (scope r) Map.empty = Inr (actions r)"
  by (auto simp: link_def Let_def split: prod.splits sum.splits)

text \<open>
  C6: when the keyed reducers that resolve to one action type are two, \<open>r1\<close> before
  \<open>r2\<close> in the order of the tree (the order of the \<^verbatim>\<open>addReducer\<close> calls within a bundle;
  a bundle before its children, an earlier child before a later one), the chain that
  the action map holds for the type applies \<open>r1\<close> to the state and \<open>r2\<close> to its
  result, and so does the action-dispatch reducer for an action of that type.
\<close>

theorem C6_action_reducer_chain:
  assumes "link px proto builder = Inr r"
    and "reducersFor t (keyedReducers (scope r) (rootBundle r)) = [r1, r2]"
  shows "callReducer (Map_get (actions r) t) state action
           = andThen (r1 state action) (\<lambda>state'. r2 state' action)
       \<and> (action_type action = t \<longrightarrow>
            actionReducer (actions r) state action
              = andThen (r1 state action) (\<lambda>state'. r2 state' action))"
proof -
  have get: "Map_get (actions r) t = RFun (composed (RFun r1) (RFun r2))"
    using buildActionMap_Map_get(1) [OF link_actions [OF assms(1)], of t] assms(2)
    by (simp add: Map_get_def reverseCompose_def)
  then have "actions r t \<noteq> None"
    by (auto simp: Map_get_def split: option.splits)
  then show ?thesis
    by (simp add: get actionReducer_def composed_def andThen_def split: sum.splits)
qed

theorem C6_action_reducer_chain_witness:
  "\<not> isl (link True Map.empty chainExample)
   \<and> actionReducer (actions (projr (link True Map.empty chainExample))) (Str ''0'')
        (Action (Str ''X'') Undefined)
       = Inr (Str ''012'')"
proof -
  define r where "r = projr (link True Map.empty chainExample)"
  have ok: "\<not> isl (link True Map.empty chainExample)"
    by (simp add: chainExample_def link_eval)
  have h1: "link True Map.empty chainExample = Inr r"
    using ok by (cases "link True Map.empty chainExample") (simp_all add: r_def)
  have h2: "reducersFor (Str ''X'') (keyedReducers (scope r) (rootBundle r))
              = [tag ''1'', tag ''2'']"
    by (simp add: r_def chainExample_def link_eval reducersFor_def)
  have "actionReducer (actions r) (Str ''0'') (Action (Str ''X'') Undefined) = Inr (Str ''012'')"
    using C6_action_reducer_chain [OF h1 h2, of "Str ''0''" "Action (Str ''X'') Undefined"]
    by (simp add: tag_def andThen_def)
  then show ?thesis using ok by (simp add: r_def)
qed

section \<open>Linking the views\<close>

lemma callerViews_Bundle:
  "callerViews (Bundle n bs) \<longleftrightarrow>
     list_all (\<lambda>decl. \<not> isConnected (viewImpl decl)) (views n) \<and> list_all callerViews bs"
  by (auto simp: callerViews_def list_all_iff)

lemma linkView_keeps_bound:
  assumes run: "linkView a d l = Inr l'"
    and caller: "\<not> isConnected (viewImpl d)"
    and bound: "viewBound l decl selector"
  shows "viewBound l' decl selector"
proof -
  from bound obtain k where k: "k < connectCalls l"
    and scope: "globalScope l (viewName decl) = Some (Connected k selector (viewImpl decl))"
    and label: "displayNames l (Connected k selector (viewImpl decl))
                  = Some (''View('' @ viewName decl @ '')'')"
    by (auto simp: viewBound_def)
  from run show ?thesis
  proof (rule linkView_effect)
    fix view l1
    assume bind: "bindView a d l = Inr (view, l1)"
      and fresh: "\<not> hasProperty (objectPrototype l) (globalScope l) (viewName d)"
      and l': "l' = l1\<lparr>displayNames := (displayNames l)(view \<mapsto> ''View('' @ viewName d @ '')''),
             typeMap := (typeMap l)(viewName d \<mapsto> ''view''),
             globalScope := (globalScope l)(viewName d \<mapsto> view)\<rparr>"
      and l1: "l1 = l \<or> l1 = l\<lparr>connectCalls := Suc (connectCalls l)\<rparr>"
    have other: "viewName decl \<noteq> viewName d"
      using scope fresh by (auto simp: hasProperty_def)
    have view: "view \<noteq> Connected k selector (viewImpl decl)"
      using bindView_Inr [OF bind] caller k by (cases "viewImpl d") auto
    have count: "connectCalls l \<le> connectCalls l'"
      using l' l1 by auto
    show ?thesis
      unfolding viewBound_def
    proof (intro exI conjI)
      show "k < connectCalls l'" using k count by simp
      show "globalScope l' (viewName decl) = Some (Connected k selector (viewImpl decl))"
        using scope other l' by simp
      show "displayNames l' (Connected k selector (viewImpl decl))
              = Some (''View('' @ viewName decl @ '')'')"
        using label view l' by simp
    qed
  qed
qed

lemma linkView_binds:
  assumes run: "linkView a decl l = Inr l'" and sel: "viewSelector decl = Str s"
  shows "viewBound l' decl (getProperty (objectPrototype l) (heap l a) s)
       \<and> typeof (getProperty (objectPrototype l) (heap l a) s) = ''function''"
  using run
proof (rule linkView_effect)
  fix view l1
  assume bind: "bindView a decl l = Inr (view, l1)"
    and l': "l' = l1\<lparr>displayNames := (displayNames l)(view \<mapsto> ''View('' @ viewName decl @ '')''),
             typeMap := (typeMap l)(viewName decl \<mapsto> ''view''),
             globalScope := (globalScope l)(viewName decl \<mapsto> view)\<rparr>"
  from bindView_Inr [OF bind] sel obtain selector where
    res: "resolveSelector a (Str s) l = Inr selector"
    and fn: "typeof selector = ''function''"
    and view: "view = Connected (connectCalls l) selector (viewImpl decl)"
    and l1: "l1 = l\<lparr>connectCalls := Suc (connectCalls l)\<rparr>"
    by auto
  from res have selector: "selector = getProperty (objectPrototype l) (heap l a) s"
    by (auto simp: resolveSelector_def dest: safeGet_Inr)
  have "viewBound l' decl selector"
    unfolding viewBound_def
  proof (intro exI conjI)
    show "connectCalls l < connectCalls l'" using l' l1 by simp
    show "globalScope l' (viewName decl) = Some (Connected (connectCalls l) selector (viewImpl decl))"
      using l' view by simp
    show "displayNames l' (Connected (connectCalls l) selector (viewImpl decl))
            = Some (''View('' @ viewName decl @ '')'')"
      using l' view by simp
  qed
  with fn selector show ?thesis by simp
qed

lemma linkOwnViews_bound:
  assumes caller: "list_all (\<lambda>decl. \<not> isConnected (viewImpl decl)) decls"
  shows "linkOwnViews a decls l = Inr l' \<Longrightarrow>
    (\<forall>decl selector. viewBound l decl selector \<longrightarrow> viewBound l' decl selector)
    \<and> (\<forall>decl \<in> set decls. \<forall>s. viewSelector decl = Str s \<longrightarrow>
          viewBound l' decl (getProperty (objectPrototype l) (heap l a) s)
          \<and> typeof (getProperty (objectPrototype l) (heap l a) s) = ''function'')"
  using caller
proof (induction decls arbitrary: l)
  case Nil
  then show ?case by simp
next
  case (Cons d decls)
  from Cons.prems(1) obtain l1 where one: "linkView a d l = Inr l1"
    and rest: "linkOwnViews a decls l1 = Inr l'"
    by (auto split: sum.splits)
  from Cons.prems(2) have d: "\<not> isConnected (viewImpl d)"
    and ds: "list_all (\<lambda>decl. \<not> isConnected (viewImpl decl)) decls"
    by simp_all
  note IH = Cons.IH [OF rest ds]
  note fr = linkView_frame [OF one]
  have keep1: "viewBound l1 decl selector" if "viewBound l decl selector" for decl selector
    by (rule linkView_keeps_bound [OF one d that])
  have keep: "viewBound l' decl selector" if "viewBound l decl selector" for decl selector
    using IH keep1 [OF that] by blast
  have first: "viewBound l' d (getProperty (objectPrototype l) (heap l a) s)
       \<and> typeof (getProperty (objectPrototype l) (heap l a) s) = ''function''"
    if "viewSelector d = Str s" for s
    using linkView_binds [OF one that] IH by blast
  have others: "viewBound l' decl (getProperty (objectPrototype l) (heap l a) s)
       \<and> typeof (getProperty (objectPrototype l) (heap l a) s) = ''function''"
    if "decl \<in> set decls" "viewSelector decl = Str s" for decl s
    using IH that fr by auto
  show ?case using keep first others by auto
qed

lemma linkOwnViews_frame:
  assumes "linkOwnViews a decls l = Inr l'"
  shows "heap l' = heap l \<and> objectPrototype l' = objectPrototype l \<and> hasProxy l' = hasProxy l"
proof (rule linkOwnViews_invariant
    [where Q = "\<lambda>x. heap x = heap l \<and> objectPrototype x = objectPrototype l \<and> hasProxy x = hasProxy l",
     OF _ assms])
  fix decl l1 l2
  assume "linkView a decl l1 = Inr l2"
    "heap l1 = heap l \<and> objectPrototype l1 = objectPrototype l \<and> hasProxy l1 = hasProxy l"
  then show "heap l2 = heap l \<and> objectPrototype l2 = objectPrototype l \<and> hasProxy l2 = hasProxy l"
    using linkView_frame [of a decl l1 l2] by simp
qed simp

lemma linkViews_bound:
  shows "Bundle_linkViews b l = Inr l' \<Longrightarrow> callerViews b \<Longrightarrow>
      (\<forall>decl selector. viewBound l decl selector \<longrightarrow> viewBound l' decl selector)
      \<and> (\<forall>n \<in> set (nodes b). \<forall>decl \<in> set (views (own n)). \<forall>s. viewSelector decl = Str s \<longrightarrow>
            viewBound l' decl (getProperty (objectPrototype l) (heap l (locals (own n))) s)
            \<and> typeof (getProperty (objectPrototype l) (heap l (locals (own n))) s) = ''function'')"
    and "linkViewsOfAll bs l = Inr l'' \<Longrightarrow> list_all callerViews bs \<Longrightarrow>
      (\<forall>decl selector. viewBound l decl selector \<longrightarrow> viewBound l'' decl selector)
      \<and> (\<forall>b \<in> set bs. \<forall>n \<in> set (nodes b). \<forall>decl \<in> set (views (own n)).
            \<forall>s. viewSelector decl = Str s \<longrightarrow>
            viewBound l'' decl (getProperty (objectPrototype l) (heap l (locals (own n))) s)
            \<and> typeof (getProperty (objectPrototype l) (heap l (locals (own n))) s) = ''function'')"
proof (induction b l and bs l arbitrary: l' and l'' rule: Bundle_linkViews_linkViewsOfAll.induct)
  case (1 n bs l)
  from 1(2) obtain l1 where own: "linkOwnViews (locals n) (views n) l = Inr l1"
    and kids: "linkViewsOfAll bs l1 = Inr l'"
    by (auto split: sum.splits)
  from 1(3) have c1: "list_all (\<lambda>decl. \<not> isConnected (viewImpl decl)) (views n)"
    and c2: "list_all callerViews bs"
    by (simp_all add: callerViews_Bundle)
  note A = linkOwnViews_bound [OF c1 own]
  note B = 1(1) [OF own kids c2]
  note fr = linkOwnViews_frame [OF own]
  have keep: "viewBound l' decl selector" if "viewBound l decl selector" for decl selector
    using A B that by blast
  have mine: "viewBound l' decl (getProperty (objectPrototype l) (heap l (locals n)) s)
       \<and> typeof (getProperty (objectPrototype l) (heap l (locals n)) s) = ''function''"
    if "decl \<in> set (views n)" "viewSelector decl = Str s" for decl s
    using A B that by blast
  have theirs: "viewBound l' decl (getProperty (objectPrototype l) (heap l (locals (own m))) s)
       \<and> typeof (getProperty (objectPrototype l) (heap l (locals (own m))) s) = ''function''"
    if "c \<in> set bs" "m \<in> set (nodes c)" "decl \<in> set (views (own m))" "viewSelector decl = Str s"
    for c m decl s
    using B that fr by auto
  show ?case using keep mine theirs by auto
next
  case (2 l)
  then show ?case by simp
next
  case (3 b bs l)
  from 3(3) obtain l1 where first: "Bundle_linkViews b l = Inr l1"
    and rest: "linkViewsOfAll bs l1 = Inr l''"
    by (auto split: sum.splits)
  from 3(4) have c1: "callerViews b" and c2: "list_all callerViews bs" by simp_all
  note A = 3(1) [OF first c1]
  note B = 3(2) [OF first rest c2]
  note fr = linkViews_frame [OF first]
  have keep: "viewBound l'' decl selector" if "viewBound l decl selector" for decl selector
    using A B that by blast
  have head: "viewBound l'' decl (getProperty (objectPrototype l) (heap l (locals (own m))) s)
       \<and> typeof (getProperty (objectPrototype l) (heap l (locals (own m))) s) = ''function''"
    if "m \<in> set (nodes b)" "decl \<in> set (views (own m))" "viewSelector decl = Str s" for m decl s
    using A B that by blast
  have tail: "viewBound l'' decl (getProperty (objectPrototype l) (heap l (locals (own m))) s)
       \<and> typeof (getProperty (objectPrototype l) (heap l (locals (own m))) s) = ''function''"
    if "c \<in> set bs" "m \<in> set (nodes c)" "decl \<in> set (views (own m))" "viewSelector decl = Str s"
    for c m decl s
    using B that fr by auto
  show ?case using keep head tail by auto
qed

lemma first_injection_types:
  assumes run: "injectAll (TypeArray ts) l = Inr l'"
    and start: "\<forall>a n. heap l a n \<noteq> None \<longrightarrow> (\<exists>t. typeMap l n = Some t \<and> t \<in> set ts)"
  shows "\<forall>a n. heap l' a n \<noteq> None \<longrightarrow> (\<exists>t. typeMap l' n = Some t \<and> t \<in> set ts)"
proof (rule injectAll_invariant
    [where Q = "\<lambda>x. \<forall>a n. heap x a n \<noteq> None \<longrightarrow> (\<exists>t. typeMap x n = Some t \<and> t \<in> set ts)",
     OF _ run start])
  fix a name l1 l2
  assume step: "inject (TypeArray ts) a name l1 = Inr l2"
    and inv: "\<forall>a n. heap l1 a n \<noteq> None \<longrightarrow> (\<exists>t. typeMap l1 n = Some t \<and> t \<in> set ts)"
  from inject_effect [OF step] show
    "\<forall>a n. heap l2 a n \<noteq> None \<longrightarrow> (\<exists>t. typeMap l2 n = Some t \<and> t \<in> set ts)"
  proof
    assume "l2 = l1"
    with inv show ?thesis by simp
  next
    assume w: "l2 = l1\<lparr>heap := (heap l1)(a := (heap l1 a)(name \<mapsto>
                    getProperty (objectPrototype l1) (globalScope l1) name))\<rparr>
          \<and> \<not> (truthy (TypeArray ts) \<and> - 1 = indexOf (TypeArray ts) (typeMap l1 name))"
    then have "Array_indexOf ts (typeMap l1 name) \<noteq> - 1" by simp
    then obtain t where "typeMap l1 name = Some t" "t \<in> set ts"
      using Array_indexOf_undefined [of ts] Array_indexOf_mem [of ts]
      by (cases "typeMap l1 name") auto
    with w inv show ?thesis by auto
  qed
qed

lemma views_filter_rejects:
  "t \<in> set [''action'', ''selector'', ''value''] \<Longrightarrow> String_indexOf ''views'' t = - 1"
  "String_indexOf ''views'' (toString None) = - 1"
  by auto

lemma second_injection_frame:
  assumes run: "injectAll (TypeString ''views'') l = Inr l'"
    and ty: "typeMap l s = None
             \<or> (\<exists>t. typeMap l s = Some t \<and> t \<in> set [''action'', ''selector'', ''value''])"
  shows "heap l' a s = heap l a s"
proof -
  have skip: "- 1 = indexOf (TypeString ''views'') (typeMap l s)"
    using ty views_filter_rejects by (cases "typeMap l s") auto
  have "typeMap l' = typeMap l \<and> heap l' a s = heap l a s"
  proof (rule injectAll_invariant
      [where Q = "\<lambda>x. typeMap x = typeMap l \<and> heap x a s = heap l a s", OF _ run])
    fix a' name l1 l2
    assume step: "inject (TypeString ''views'') a' name l1 = Inr l2"
      and inv: "typeMap l1 = typeMap l \<and> heap l1 a s = heap l a s"
    from inject_effect [OF step] show "typeMap l2 = typeMap l \<and> heap l2 a s = heap l a s"
    proof
      assume "l2 = l1"
      with inv show ?thesis by simp
    next
      assume w: "l2 = l1\<lparr>heap := (heap l1)(a' := (heap l1 a')(name \<mapsto>
                    getProperty (objectPrototype l1) (globalScope l1) name))\<rparr>
          \<and> \<not> (truthy (TypeString ''views'')
                \<and> - 1 = indexOf (TypeString ''views'') (typeMap l1 name))"
      then have "name \<noteq> s" using skip inv by auto
      with w inv show ?thesis by auto
    qed
  qed simp
  then show ?thesis by simp
qed

lemma link_views_bound:
  assumes link: "link px proto builder = Inr r"
    and caller: "callerViews (rootBundle r)"
    and b: "b \<in> set (nodes (rootBundle r))"
    and decl: "decl \<in> set (views (own b))"
    and sel: "viewSelector decl = Str s"
  shows "\<exists>selector. locals_get (scope r) (locals (own b)) s = Inr selector
           \<and> typeof selector = ''function''
           \<and> viewBound (scope r) decl selector"
proof -
  from link obtain root0 l0 root1 l1 l2 l3 where
    nb: "new_Bundle (initial px proto) = (root0, l0)"
    and run: "runBuilder builder root0 l0 = Inr (root1, l1)"
    and inj1: "injectAll (TypeArray [''action'', ''selector'', ''value'']) l1 = Inr l2"
    and views: "Bundle_linkViews (rootBundle r) l2 = Inr l3"
    and inj2: "injectAll (TypeString ''views'') l3 = Inr (scope r)"
    by (auto elim!: link_InrE)
  let ?a = "locals (own b)"
  \<comment> \<open>the state that the build leaves\<close>
  have typed0: "\<forall>n. typeMap l0 n \<noteq> None \<longrightarrow> globalScope l0 n \<noteq> None"
    and scoped0: "\<forall>n. globalScope l0 n \<noteq> None \<longrightarrow> objectPrototype l0 n = None"
    and blank0: "\<forall>a. heap l0 a = Map.empty"
    using nb by (auto simp: new_Bundle_def initial_def)
  note typed1 = build_typeMap [OF run typed0]
  note scoped1 = build_scope_not_inherited [OF run scoped0]
  note blank1 = build_heap_empty [OF run blank0]
  \<comment> \<open>the first injection\<close>
  from injectAll_frame [OF inj1] obtain h2 where l2: "l2 = l1\<lparr>heap := h2\<rparr>" by blast
  have typed2: "\<forall>n. typeMap l2 n \<noteq> None \<longrightarrow> globalScope l2 n \<noteq> None"
    and scoped2: "\<forall>n. globalScope l2 n \<noteq> None \<longrightarrow> objectPrototype l2 n = None"
    using typed1 scoped1 l2 by simp_all
  have types2: "\<forall>a n. heap l2 a n \<noteq> None \<longrightarrow>
      (\<exists>t. typeMap l2 n = Some t \<and> t \<in> set [''action'', ''selector'', ''value''])"
    by (rule first_injection_types [OF inj1]) (simp add: blank1)
  \<comment> \<open>the linking of the views\<close>
  note fr3 = linkViews_frame [OF views]
  note typed3 = linkViews_typed [OF views typed2]
  note scoped3 = linkViews_not_inherited [OF views scoped2]
  let ?selector = "getProperty (objectPrototype l2) (heap l2 ?a) s"
  from linkViews_bound(1) [OF views caller] b decl sel
  have bound3: "viewBound l3 decl ?selector" and fn: "typeof ?selector = ''function''"
    by blast+
  \<comment> \<open>the second injection\<close>
  from injectAll_frame [OF inj2] obtain h4 where l4: "scope r = l3\<lparr>heap := h4\<rparr>" by blast
  have bound4: "viewBound (scope r) decl ?selector"
    using bound3 by (simp add: l4 viewBound_def)
  have ty3: "typeMap l3 s = None
     \<or> (\<exists>t. typeMap l3 s = Some t \<and> t \<in> set [''action'', ''selector'', ''value''])"
  proof (cases "heap l2 ?a s")
    case (Some v)
    with types2 obtain t where t: "typeMap l2 s = Some t"
      "t \<in> set [''action'', ''selector'', ''value'']"
      by blast
    from linkViews_typeMap_grows [OF views typed2 t(1)] t(2) show ?thesis by blast
  next
    case None
    with fn have "objectPrototype l2 s \<noteq> None"
      by (auto simp: getProperty_def split: option.splits)
    then have "objectPrototype l3 s \<noteq> None" using fr3 by simp
    with scoped3 have "globalScope l3 s = None"
      by (cases "globalScope l3 s") auto
    with typed3 have "typeMap l3 s = None"
      by (cases "typeMap l3 s") auto
    then show ?thesis by simp
  qed
  have same: "heap (scope r) ?a s = heap l2 ?a s"
    using second_injection_frame [OF inj2 ty3, of ?a] fr3 by simp
  have proto: "objectPrototype (scope r) = objectPrototype l2"
    using l4 fr3 by simp
  have held: "hasProperty (objectPrototype l2) (heap l2 ?a) s"
    using fn by (auto simp: getProperty_def hasProperty_def split: option.splits)
  have "locals_get (scope r) ?a s = Inr ?selector"
    using same proto held
    by (simp add: locals_get_def safeGet_def getProperty_def hasProperty_def)
  with fn bound4 show ?thesis by blast
qed

lemma linkView_by_name:
  assumes "viewSelector decl = Str s"
  shows "linkView a decl l =
     (case locals_get l a s of
        Inl e \<Rightarrow> Inl e
      | Inr selector \<Rightarrow>
          if typeof selector \<noteq> ''function'' then Inl InvalidSelectorForView
          else publish ''view'' (viewName decl)
                 (Connected (connectCalls l) selector (viewImpl decl))
                 (l\<lparr>connectCalls := Suc (connectCalls l),
                    displayNames := (displayNames l)
                      (Connected (connectCalls l) selector (viewImpl decl)
                         \<mapsto> ''View('' @ viewName decl @ '')'')\<rparr>))"
  using assms
  by (simp add: linkView_def bindView_def resolveSelector_def locals_get_def connect_def
      split: sum.splits)

lemma linkOwnViews_append:
  "linkOwnViews a (pre @ post) l =
     (case linkOwnViews a pre l of Inl e \<Rightarrow> Inl e | Inr l1 \<Rightarrow> linkOwnViews a post l1)"
  by (induction pre arbitrary: l) (simp_all split: sum.splits)

lemma linkViews_fails_at:
  assumes vs: "views n = pre @ decl # post"
    and before: "linkOwnViews (locals n) pre l = Inr l1"
    and fails: "linkView (locals n) decl l1 = Inl e"
  shows "Bundle_linkViews (Bundle n bs) l = Inl e"
  by (simp add: vs linkOwnViews_append before fails)

lemma shared_view_last_label:
  "(case link True Map.empty sharedViewExample of
      Inl e \<Rightarrow> False
    | Inr r \<Rightarrow> globalScope (scope r) ''A'' = Some (Function 2)
             \<and> globalScope (scope r) ''B'' = Some (Function 2)
             \<and> displayNames (scope r) (Function 2) = Some ''View(B)'')"
  by (simp add: sharedViewExample_def link_eval)

text \<open>
  C9: a view declared with the name \<open>s\<close> of a selector is linked by reading \<open>s\<close> from
  the dependency object of the declaring bundle, as the first injection filled it, not
  from the global scope.  First, the step for one such view: when the read throws, or
  gives a value that is no function, the step fails, and otherwise it publishes the
  component that \<^verbatim>\<open>connect\<close> returns for that selector and the declared view, labelled
  \<^verbatim>\<open>View(name)\<close>.  Second, in \<^verbatim>\<open>_linkViews\<close> of a bundle, once the views that the bundle
  declares before it are linked, a read of \<open>s\<close> from the dependency object of that bundle
  which throws or gives no function makes \<^verbatim>\<open>_linkViews\<close> fail.  Third, after every
  successful \<^verbatim>\<open>link\<close>, for each such view of each bundle of the tree: the dependency
  object of that bundle holds a function under \<open>s\<close>, the global scope holds under the
  name of the view the component that \<^verbatim>\<open>connect\<close> returned for that function and the
  declared view, and the \<^verbatim>\<open>displayName\<close> of that component is \<^verbatim>\<open>View(name)\<close>.

  The label is assigned in place.  A component that \<^verbatim>\<open>connect\<close> returns is a new
  object, and the views that a builder declares are objects of the caller
  (\<open>callerViews\<close>), so no later assignment reaches the label of a view that has a
  selector.  A function declared as a view without a selector is labelled in place too:
  declared under two names, it carries the label of the second under both
  (\<open>shared_view_last_label\<close>).
\<close>

theorem C9_view_resolution:
  "(viewSelector decl = Str s \<longrightarrow>
      linkView a decl l =
        (case locals_get l a s of
           Inl e \<Rightarrow> Inl e
         | Inr selector \<Rightarrow>
             if typeof selector \<noteq> ''function'' then Inl InvalidSelectorForView
             else publish ''view'' (viewName decl)
                    (Connected (connectCalls l) selector (viewImpl decl))
                    (l\<lparr>connectCalls := Suc (connectCalls l),
                       displayNames := (displayNames l)
                         (Connected (connectCalls l) selector (viewImpl decl)
                            \<mapsto> ''View('' @ viewName decl @ '')'')\<rparr>)))
   \<and> (views n = pre @ decl # post \<and> viewSelector decl = Str s
        \<and> linkOwnViews (locals n) pre l = Inr l1 \<longrightarrow>
      (case locals_get l1 (locals n) s of
         Inl e \<Rightarrow> Bundle_linkViews (Bundle n bs) l = Inl e
       | Inr selector \<Rightarrow>
           typeof selector \<noteq> ''function'' \<longrightarrow>
           Bundle_linkViews (Bundle n bs) l = Inl InvalidSelectorForView))
   \<and> (link px proto builder = Inr r \<and> callerViews (rootBundle r)
        \<and> b \<in> set (nodes (rootBundle r)) \<and> decl \<in> set (views (own b))
        \<and> viewSelector decl = Str s \<longrightarrow>
      (\<exists>k selector.
          locals_get (scope r) (locals (own b)) s = Inr selector
          \<and> typeof selector = ''function''
          \<and> globalScope (scope r) (viewName decl) = Some (Connected k selector (viewImpl decl))
          \<and> displayNames (scope r) (Connected k selector (viewImpl decl))
              = Some (''View('' @ viewName decl @ '')'')))"
proof (intro conjI impI)
  assume "viewSelector decl = Str s"
  then show "linkView a decl l =
        (case locals_get l a s of
           Inl e \<Rightarrow> Inl e
         | Inr selector \<Rightarrow>
             if typeof selector \<noteq> ''function'' then Inl InvalidSelectorForView
             else publish ''view'' (viewName decl)
                    (Connected (connectCalls l) selector (viewImpl decl))
                    (l\<lparr>connectCalls := Suc (connectCalls l),
                       displayNames := (displayNames l)
                         (Connected (connectCalls l) selector (viewImpl decl)
                            \<mapsto> ''View('' @ viewName decl @ '')'')\<rparr>))"
    by (rule linkView_by_name)
next
  assume a: "views n = pre @ decl # post \<and> viewSelector decl = Str s
        \<and> linkOwnViews (locals n) pre l = Inr l1"
  then have step: "linkView (locals n) decl l1 =
        (case locals_get l1 (locals n) s of
           Inl e \<Rightarrow> Inl e
         | Inr selector \<Rightarrow>
             if typeof selector \<noteq> ''function'' then Inl InvalidSelectorForView
             else publish ''view'' (viewName decl)
                    (Connected (connectCalls l1) selector (viewImpl decl))
                    (l1\<lparr>connectCalls := Suc (connectCalls l1),
                       displayNames := (displayNames l1)
                         (Connected (connectCalls l1) selector (viewImpl decl)
                            \<mapsto> ''View('' @ viewName decl @ '')'')\<rparr>))"
    by (intro linkView_by_name) simp
  show "case locals_get l1 (locals n) s of
         Inl e \<Rightarrow> Bundle_linkViews (Bundle n bs) l = Inl e
       | Inr selector \<Rightarrow>
           typeof selector \<noteq> ''function'' \<longrightarrow>
           Bundle_linkViews (Bundle n bs) l = Inl InvalidSelectorForView"
  proof (cases "locals_get l1 (locals n) s")
    case (Inl e)
    with step have "linkView (locals n) decl l1 = Inl e" by simp
    with a have "Bundle_linkViews (Bundle n bs) l = Inl e"
      by (intro linkViews_fails_at [of n pre decl post l l1]) simp_all
    with Inl show ?thesis by simp
  next
    case (Inr selector)
    show ?thesis
    proof (cases "typeof selector = ''function''")
      case True
      with Inr show ?thesis by simp
    next
      case False
      with step Inr have "linkView (locals n) decl l1 = Inl InvalidSelectorForView" by simp
      with a have "Bundle_linkViews (Bundle n bs) l = Inl InvalidSelectorForView"
        by (intro linkViews_fails_at [of n pre decl post l l1]) simp_all
      with Inr show ?thesis by simp
    qed
  qed
next
  assume "link px proto builder = Inr r \<and> callerViews (rootBundle r)
        \<and> b \<in> set (nodes (rootBundle r)) \<and> decl \<in> set (views (own b))
        \<and> viewSelector decl = Str s"
  then obtain selector where
    "locals_get (scope r) (locals (own b)) s = Inr selector"
    "typeof selector = ''function''" "viewBound (scope r) decl selector"
    using link_views_bound by blast
  then show "\<exists>k selector.
          locals_get (scope r) (locals (own b)) s = Inr selector
          \<and> typeof selector = ''function''
          \<and> globalScope (scope r) (viewName decl) = Some (Connected k selector (viewImpl decl))
          \<and> displayNames (scope r) (Connected k selector (viewImpl decl))
              = Some (''View('' @ viewName decl @ '')'')"
    by (auto simp: viewBound_def)
qed

theorem C9_view_resolution_witness:
  "\<not> isl (link True Map.empty viewExample)
   \<and> callerViews (rootBundle (projr (link True Map.empty viewExample)))
   \<and> globalScope (scope (projr (link True Map.empty viewExample))) ''V''
       = Some (Connected 0 (Function 1) (Function 2))
   \<and> displayNames (scope (projr (link True Map.empty viewExample)))
        (Connected 0 (Function 1) (Function 2)) = Some ''View(V)''
   \<and> link True Map.empty foreignViewExample = Inl (UseOfUndeclaredDependency ''s'')"
proof -
  define r where "r = projr (link True Map.empty viewExample)"
  define decl where "decl = \<lparr>viewName = ''V'', viewImpl = Function 2, viewSelector = Str ''s''\<rparr>"
  have ok: "\<not> isl (link True Map.empty viewExample)"
    by (simp add: viewExample_def link_eval)
  have h1: "link True Map.empty viewExample = Inr r"
    using ok by (cases "link True Map.empty viewExample") (simp_all add: r_def)
  have root: "rootBundle r = Bundle
      \<lparr>locals = 0, earlyReducers = [], actionReducers = [], lateReducers = [],
       views = [decl], defers = [], sagas = [], sealed = True\<rparr> []"
    by (simp add: r_def decl_def viewExample_def link_eval)
  have h2: "callerViews (rootBundle r)"
    by (simp add: root callerViews_def decl_def)
  have h3: "rootBundle r \<in> set (nodes (rootBundle r))"
    by (simp add: root)
  have h4: "decl \<in> set (views (own (rootBundle r)))"
    by (simp add: root)
  have h5: "viewSelector decl = Str ''s''"
    by (simp add: decl_def)
  have loc: "locals_get (scope r) (locals (own (rootBundle r))) ''s'' = Inr (Function 1)"
    by (simp add: r_def viewExample_def link_eval locals_get_def)
  from C9_view_resolution [of decl "''s''" 0 "scope r" _ _ _ _ _ True Map.empty viewExample r
      "rootBundle r"] h1 h2 h3 h4 h5
  obtain k selector where
    "locals_get (scope r) (locals (own (rootBundle r))) ''s'' = Inr selector"
    "globalScope (scope r) (viewName decl) = Some (Connected k selector (viewImpl decl))"
    "displayNames (scope r) (Connected k selector (viewImpl decl))
       = Some (''View('' @ viewName decl @ '')'')"
    by blast
  with loc have bound: "globalScope (scope r) ''V'' = Some (Connected k (Function 1) (Function 2))"
    "displayNames (scope r) (Connected k (Function 1) (Function 2)) = Some ''View(V)''"
    by (simp_all add: decl_def)
  have "globalScope (scope r) ''V'' = Some (Connected 0 (Function 1) (Function 2))"
    by (simp add: r_def viewExample_def link_eval)
  with bound have k: "k = 0" by simp
  have foreign: "link True Map.empty foreignViewExample = Inl (UseOfUndeclaredDependency ''s'')"
    by (simp add: foreignViewExample_def link_eval)
  from bound k h2 ok foreign show ?thesis by (simp add: r_def)
qed

section \<open>The outcome of the build phase\<close>

lemma declaredNames_simps [simp]:
  "declaredNames [] = []"
  "declaredNames (d # ds) = (case declaredName d of None \<Rightarrow> [] | Some n \<Rightarrow> [n]) @ declaredNames ds"
  "declaredNames (xs @ ys) = declaredNames xs @ declaredNames ys"
  by (simp_all add: declaredNames_def)

lemma claimedTypes_simps [simp]:
  "claimedTypes [] = []"
  "claimedTypes (d # ds) = (case claimedType d of None \<Rightarrow> [] | Some t \<Rightarrow> [t]) @ claimedTypes ds"
  "claimedTypes (xs @ ys) = claimedTypes xs @ claimedTypes ys"
  by (simp_all add: claimedTypes_def)

lemma firstRefusal_append:
  "firstRefusal N T (xs @ ys) =
     (case firstRefusal N T xs of
        Some e \<Rightarrow> Some e
      | None \<Rightarrow> firstRefusal (N \<union> set (declaredNames xs)) (T \<union> set (claimedTypes xs)) ys)"
proof (induction xs arbitrary: N T)
  case Nil
  then show ?case by simp
next
  case (Cons d xs)
  show ?case
    by (simp add: Cons.IH Un_assoc split: option.splits)
qed

lemma buildsAs_same:
  "taken l1 = taken l \<Longrightarrow> claimed l1 = claimed l \<Longrightarrow> buildsAs res l1 ds = buildsAs res l ds"
  by (auto simp: buildsAs_def split: option.splits sum.splits prod.splits)

lemma taken_upd [simp]:
  "taken (useQueue_update f1 l) = taken l"
  "taken (heap_update f2 l) = taken l"
  "taken (nextAddress_update f3 l) = taken l"
  "taken (enhancers_update f4 l) = taken l"
  "taken (nameForActionType_update f5 l) = taken l"
  "taken (typeMap_update f6 l) = taken l"
  "taken (displayNames_update f8 l) = taken l"
  "taken (connectCalls_update f9 l) = taken l"
  "taken (globalScope_update f7 l) = {n. hasProperty (objectPrototype l) (f7 (globalScope l)) n}"
  by (simp_all add: taken_def)

lemma claimed_upd [simp]:
  "claimed (useQueue_update f1 l) = claimed l"
  "claimed (heap_update f2 l) = claimed l"
  "claimed (nextAddress_update f3 l) = claimed l"
  "claimed (enhancers_update f4 l) = claimed l"
  "claimed (globalScope_update f5 l) = claimed l"
  "claimed (typeMap_update f6 l) = claimed l"
  "claimed (displayNames_update f8 l) = claimed l"
  "claimed (connectCalls_update f9 l) = claimed l"
  "claimed (nameForActionType_update f7 l) = dom (f7 (nameForActionType l))"
  by (simp_all add: claimed_def)

lemma taken_insert:
  "{n. hasProperty (objectPrototype l) ((globalScope l)(name \<mapsto> v)) n} = insert name (taken l)"
  by (auto simp: taken_def hasProperty_def)

lemma publish_cases:
  "publish type name value l =
     (if name \<in> taken l then Inl (LinkerConflict name)
      else Inr (l\<lparr>typeMap := (typeMap l)(name \<mapsto> type),
                  globalScope := (globalScope l)(name \<mapsto> value)\<rparr>))"
  by (simp add: publish_def taken_def)

lemma declareActionType_cases:
  "declareActionType actionType name l =
     (if actionType \<in> claimed l then Inl (ActionTypeConflict actionType)
      else Inr (l\<lparr>nameForActionType := (nameForActionType l)(actionType \<mapsto> name)\<rparr>))"
  by (auto simp: declareActionType_def claimed_def)

lemma open_assert: "\<not> sealed (own b) \<Longrightarrow> assertNotSealed b = Inr ()"
  by (simp add: assertNotSealed_def)

lemma own_modify [simp]: "own (modify f b) = f (own b)"
  by (simp add: modify_def)

lemma call_DefineValue:
  "\<not> sealed (own b) \<Longrightarrow> buildsAs (Bundle_defineValue name value b l) l [DefineValue name value]"
  by (simp add: buildsAs_def Bundle_defineValue_def Bundle_use_def open_assert publish_cases
      declareUse_def taken_insert)

lemma call_DefineSelector:
  "\<not> sealed (own b) \<Longrightarrow> buildsAs (Bundle_defineSelector name value b l) l [DefineSelector name value]"
  by (simp add: buildsAs_def Bundle_defineSelector_def Bundle_use_def open_assert publish_cases
      declareUse_def taken_insert)

lemma call_DefineAction:
  "\<not> sealed (own b) \<Longrightarrow> buildsAs (Bundle_defineAction name t b l) l [DefineAction name t]"
  by (simp add: buildsAs_def Bundle_defineAction_def Bundle_use_def open_assert publish_cases
      declareActionType_cases declareUse_def taken_insert claimed_def)

lemma call_others:
  assumes "\<not> sealed (own b)"
  shows "buildsAs (Bundle_use names b l) l []"
    and "buildsAs (case Bundle_pack names b l of Inl e \<Rightarrow> Inl e | Inr (target, b', l') \<Rightarrow> Inr (b', l')) l []"
    and "buildsAs (Bundle_defineView name selector view b l) l []"
    and "buildsAs (Bundle_addReducer name f b l) l []"
    and "buildsAs (Bundle_addReducer1 r b l) l []"
    and "buildsAs (Bundle_addEarlyReducer r b l) l []"
    and "buildsAs (Bundle_addLateReducer r b l) l []"
    and "buildsAs (Bundle_addSaga v b l) l []"
    and "buildsAs (Bundle_addEnhancer v b l) l []"
    and "buildsAs (Bundle_defer v b l) l []"
    and "buildsAs (case Bundle_lookup name b l of Inl e \<Rightarrow> Inl e | Inr v \<Rightarrow> Inr (b, l)) l []"
  using assms
  by (simp_all add: buildsAs_def Bundle_use_def Bundle_pack_def Bundle_defineView_def
      Bundle_addReducer_def Bundle_addReducer1_def Bundle_addEarlyReducer_def
      Bundle_addLateReducer_def Bundle_addSaga_def Bundle_addEnhancer_def Bundle_defer_def
      Bundle_lookup_def open_assert declareUse_def addEnhancer_def Let_def)

lemma new_Bundle_props:
  "new_Bundle l = (x, y) \<Longrightarrow> \<not> sealed (own x) \<and> taken y = taken l \<and> claimed y = claimed l"
  by (auto simp: new_Bundle_def)

lemma buildsAs_step:
  assumes first: "buildsAs res1 l xs"
    and rest: "\<And>b1 l1. res1 = Inr (b1, l1) \<Longrightarrow> buildsAs (k b1 l1) l1 ys"
  shows "buildsAs (case res1 of Inl e \<Rightarrow> Inl e | Inr (b1, l1) \<Rightarrow> k b1 l1) l (xs @ ys)"
proof (cases "firstRefusal (taken l) (claimed l) xs")
  case (Some e)
  with first show ?thesis by (simp add: buildsAs_def firstRefusal_append)
next
  case None
  with first obtain b1 l1 where res1: "res1 = Inr (b1, l1)"
    and t: "taken l1 = taken l \<union> set (declaredNames xs)"
    and c: "claimed l1 = claimed l \<union> set (claimedTypes xs)"
    by (auto simp: buildsAs_def split: sum.splits)
  have inner: "buildsAs (k b1 l1) l1 ys" by (rule rest [OF res1])
  show ?thesis
  proof (cases "firstRefusal (taken l \<union> set (declaredNames xs))
                  (claimed l \<union> set (claimedTypes xs)) ys")
    case N2: None
    with inner show ?thesis
      by (cases "k b1 l1")
         (simp_all add: buildsAs_def firstRefusal_append None res1 t c Un_assoc split: prod.splits)
  next
    case (Some e)
    with inner show ?thesis
      by (simp add: buildsAs_def firstRefusal_append None res1 t c)
  qed
qed

lemma include_outcome:
  assumes op: "\<not> sealed (own b)"
    and IH: "\<And>x y. new_Bundle l = (x, y) \<Longrightarrow> \<not> sealed (own x) \<Longrightarrow>
                buildsAs (runBuilder builder x y) y ds"
  shows "buildsAs (Bundle_include builder b l) l ds"
proof -
  obtain x y where nb: "new_Bundle l = (x, y)" by (cases "new_Bundle l")
  note p = new_Bundle_props [OF nb]
  have "buildsAs (runBuilder builder x y) y ds"
    using IH [OF nb] p by blast
  then have inner: "buildsAs (runBuilder builder x y) l ds"
    using p buildsAs_same [of y l] by blast
  have eq: "Bundle_include builder b l =
      (case runBuilder builder x y of Inl e \<Rightarrow> Inl e
       | Inr (bundle', l2) \<Rightarrow> Inr (Bundle (own b) (bundles b @ [bundle']), l2))"
    by (simp add: open_assert [OF op] nb)
  show ?thesis
  proof (cases "runBuilder builder x y")
    case (Inl e)
    with inner show ?thesis unfolding eq by (simp add: buildsAs_def)
  next
    case (Inr p)
    obtain b1 l1 where "p = (b1, l1)" by (cases p)
    with Inr inner op show ?thesis unfolding eq
      by (simp add: buildsAs_def split: option.splits)
  qed
qed

lemma build_outcome:
  shows "\<not> sealed (own b) \<Longrightarrow> buildsAs (Bundle_include builder b l) l (declarationsOfAll builder)"
    and "\<not> sealed (own b) \<Longrightarrow> buildsAs (runBuilder ds b l) l (declarationsOfAll ds)"
    and "\<not> sealed (own b) \<Longrightarrow> buildsAs (call d b l) l (declarations d)"
proof (induction builder b l and ds b l and d b l rule: Bundle_include_runBuilder_call.induct)
  case (1 builder b l)
  show ?case
  proof (rule include_outcome [OF 1(2)])
    fix x y
    assume nb: "new_Bundle l = (x, y)" and op: "\<not> sealed (own x)"
    show "buildsAs (runBuilder builder x y) y (declarationsOfAll builder)"
      by (rule 1(1) [OF open_assert [OF 1(2)] nb [symmetric] op])
  qed
next
  case (2 b l)
  then show ?case by (simp add: buildsAs_def)
next
  case (3 d ds b l)
  have first: "buildsAs (call d b l) l (declarations d)"
    by (rule 3(1) [OF 3(3)])
  have rest: "buildsAs (runBuilder ds b1 l1) l1 (declarationsOfAll ds)"
    if c: "call d b l = Inr (b1, l1)" for b1 l1
  proof -
    have "\<not> sealed (own b1)"
      using first unfolding c buildsAs_def
      by (cases "firstRefusal (taken l) (claimed l) (declarations d)") simp_all
    then show ?thesis by (rule 3(2) [OF c refl])
  qed
  have "buildsAs (case call d b l of Inl e \<Rightarrow> Inl e | Inr (b1, l1) \<Rightarrow> runBuilder ds b1 l1) l
          (declarations d @ declarationsOfAll ds)"
    by (rule buildsAs_step [OF first rest])
  then show ?case by simp
next
  case (4 builder b l)
  then show ?case by simp
next
  case (5 names b l)
  then show ?case by (simp add: call_others(1))
next
  case (6 names b l)
  then show ?case by (simp add: call_others(2))
next
  case (7 name v b l)
  then show ?case by (simp add: call_DefineValue)
next
  case (8 name v b l)
  then show ?case by (simp add: call_DefineSelector)
next
  case (9 name actionType b l)
  then show ?case by (simp add: call_DefineAction)
next
  case (10 name selector view b l)
  then show ?case by (simp add: call_others(3))
next
  case (11 name f b l)
  then show ?case by (simp add: call_others(4))
next
  case (12 f b l)
  then show ?case by (simp add: call_others(5))
next
  case (13 f b l)
  then show ?case by (simp add: call_others(6))
next
  case (14 f b l)
  then show ?case by (simp add: call_others(7))
next
  case (15 saga b l)
  then show ?case by (simp add: call_others(8))
next
  case (16 enhancer b l)
  then show ?case by (simp add: call_others(9))
next
  case (17 callback b l)
  then show ?case by (simp add: call_others(10))
next
  case (18 name b l)
  then show ?case by (simp add: call_others(11))
qed

section \<open>Conflicts of names and of action types\<close>

lemma declaredName_cases:
  "declaredName d = Some name \<Longrightarrow>
   (\<exists>v. d = DefineValue name v) \<or> (\<exists>v. d = DefineSelector name v) \<or> (\<exists>t. d = DefineAction name t)"
  by (cases d) simp_all

lemma firstRefusal_None_iff:
  "firstRefusal N T ds = None \<Longrightarrow>
   distinct (declaredNames ds) \<and> set (declaredNames ds) \<inter> N = {}"
proof (induction ds arbitrary: N T)
  case Nil
  then show ?case by simp
next
  case (Cons d ds)
  from Cons.prems have r: "refusal N T d = None"
    and rest: "firstRefusal (N \<union> set (declaredNames [d])) (T \<union> set (claimedTypes [d])) ds = None"
    by (auto split: option.splits)
  from Cons.IH [OF rest] have IH: "distinct (declaredNames ds)"
    "set (declaredNames ds) \<inter> (N \<union> set (declaredNames [d])) = {}"
    by simp_all
  show ?case
  proof (cases "declaredName d")
    case None
    with IH show ?thesis by simp
  next
    case (Some name)
    from declaredName_cases [OF Some] r have "name \<notin> N"
      by (auto split: if_splits)
    with IH Some show ?thesis by auto
  qed
qed

lemma firstRefusal_conflictFree:
  "distinct (declaredNames ds) \<Longrightarrow> set (declaredNames ds) \<inter> N = {} \<Longrightarrow>
   distinct (claimedTypes ds) \<Longrightarrow> set (claimedTypes ds) \<inter> T = {} \<Longrightarrow>
   firstRefusal N T ds = None"
proof (induction ds arbitrary: N T)
  case Nil
  then show ?case by simp
next
  case (Cons d ds)
  have r: "refusal N T d = None"
    using Cons.prems by (cases d) auto
  have "firstRefusal (N \<union> set (declaredNames [d])) (T \<union> set (claimedTypes [d])) ds = None"
    using Cons.prems by (intro Cons.IH) (auto split: option.splits)
  with r show ?case by simp
qed

lemma conflictFree_firstRefusal:
  "conflictFree proto pre \<Longrightarrow> firstRefusal (dom proto) {} pre = None"
  by (rule firstRefusal_conflictFree) (auto simp: conflictFree_def list_all_iff)

lemma firstRefusal_at:
  assumes "conflictFree proto pre"
  shows "firstRefusal (dom proto) {} (pre @ d # post) =
     (case refusal (dom proto \<union> set (declaredNames pre)) (set (claimedTypes pre)) d of
        Some e \<Rightarrow> Some e
      | None \<Rightarrow> firstRefusal (dom proto \<union> set (declaredNames pre) \<union> set (declaredNames [d]))
                  (set (claimedTypes pre) \<union> set (claimedTypes [d])) post)"
  by (simp add: firstRefusal_append conflictFree_firstRefusal [OF assms])

lemma initial_taken:
  "new_Bundle (initial px proto) = (root0, l0) \<Longrightarrow>
   \<not> sealed (own root0) \<and> taken l0 = dom proto \<and> claimed l0 = {}"
  by (auto simp: new_Bundle_def initial_def taken_def claimed_def hasProperty_def dom_def)

lemma link_build:
  "buildsAs (runBuilder builder (fst (new_Bundle (initial px proto)))
               (snd (new_Bundle (initial px proto))))
     (snd (new_Bundle (initial px proto))) (declarationsOfAll builder)"
  by (rule build_outcome(2)) (simp add: new_Bundle_def)

lemma link_build_fails:
  assumes "firstRefusal (dom proto) {} (declarationsOfAll builder) = Some e"
  shows "link px proto builder = Inl e"
proof -
  obtain root0 l0 where nb: "new_Bundle (initial px proto) = (root0, l0)"
    by (cases "new_Bundle (initial px proto)")
  from initial_taken [OF nb] link_build [of builder px proto] assms
  have "runBuilder builder root0 l0 = Inl e"
    by (simp add: nb buildsAs_def)
  then show ?thesis by (simp add: link_def nb)
qed

lemma defineAction_claimed:
  "\<not> sealed (own b) \<Longrightarrow> t \<in> claimed l \<Longrightarrow>
   Bundle_defineAction name t b l = Inl (ActionTypeConflict t)"
  by (simp add: Bundle_defineAction_def open_assert declareActionType_cases)

text \<open>
  C8: a \<^verbatim>\<open>defineAction\<close> whose action type is already in the registry fails with the
  type-conflict error carrying the type, whatever name it declares (the type is
  registered, and the conflict raised, before the name is published).  At the level
  of \<^verbatim>\<open>link\<close>: when the declarations that run before a \<^verbatim>\<open>defineAction(name, t)\<close> are free
  of conflicts and one of them claims \<open>t\<close>, \<^verbatim>\<open>link\<close> fails with the type-conflict error
  carrying \<open>t\<close>, also when \<open>name\<close> is published already.  That error is not the
  name-conflict error.
\<close>

theorem C8_action_type_conflict:
  "(\<not> sealed (own b) \<and> nameForActionType l t \<noteq> None \<longrightarrow>
      Bundle_defineAction name t b l = Inl (ActionTypeConflict t))
   \<and> (declarationsOfAll rootBuilder = pre @ DefineAction name t # post
        \<and> conflictFree proto pre \<and> t \<in> set (claimedTypes pre) \<longrightarrow>
      link px proto rootBuilder = Inl (ActionTypeConflict t))
   \<and> ActionTypeConflict t \<noteq> LinkerConflict name"
proof (intro conjI impI)
  assume "\<not> sealed (own b) \<and> nameForActionType l t \<noteq> None"
  then show "Bundle_defineAction name t b l = Inl (ActionTypeConflict t)"
    by (intro defineAction_claimed) (auto simp: claimed_def)
next
  assume a: "declarationsOfAll rootBuilder = pre @ DefineAction name t # post
        \<and> conflictFree proto pre \<and> t \<in> set (claimedTypes pre)"
  then have "firstRefusal (dom proto) {} (declarationsOfAll rootBuilder)
      = Some (ActionTypeConflict t)"
    by (simp add: firstRefusal_at)
  then show "link px proto rootBuilder = Inl (ActionTypeConflict t)"
    by (rule link_build_fails)
next
  show "ActionTypeConflict t \<noteq> LinkerConflict name" by simp
qed

theorem C8_action_type_conflict_witness:
  "link True Map.empty sameTypeExample = Inl (ActionTypeConflict (Str ''T''))
   \<and> link True Map.empty twiceActionExample = Inl (ActionTypeConflict (Str ''T''))"
proof -
  have cf: "conflictFree Map.empty [DefineAction ''a'' (Str ''T'')]"
    by (simp add: conflictFree_def)
  have d1: "declarationsOfAll sameTypeExample
      = [DefineAction ''a'' (Str ''T'')] @ DefineAction ''b'' (Str ''T'') # []"
    by (simp add: sameTypeExample_def)
  have d2: "declarationsOfAll twiceActionExample
      = [DefineAction ''a'' (Str ''T'')] @ DefineAction ''a'' (Str ''T'') # []"
    by (simp add: twiceActionExample_def)
  have t: "Str ''T'' \<in> set (claimedTypes [DefineAction ''a'' (Str ''T'')])"
    by simp
  from C8_action_type_conflict [of _ _ "Str ''T''" "''b''" sameTypeExample
      "[DefineAction ''a'' (Str ''T'')]" "[]" Map.empty True] d1 cf t
  have 1: "link True Map.empty sameTypeExample = Inl (ActionTypeConflict (Str ''T''))"
    by blast
  from C8_action_type_conflict [of _ _ "Str ''T''" "''a''" twiceActionExample
      "[DefineAction ''a'' (Str ''T'')]" "[]" Map.empty True] d2 cf t
  have 2: "link True Map.empty twiceActionExample = Inl (ActionTypeConflict (Str ''T''))"
    by blast
  from 1 2 show ?thesis by simp
qed

lemma link_name_conflict:
  assumes "declarationsOfAll rootBuilder = pre @ d # post" "conflictFree proto pre"
    "declaredName d = Some name" "name \<in> set (declaredNames pre)"
    "case claimedType d of None \<Rightarrow> True | Some t \<Rightarrow> t \<notin> set (claimedTypes pre)"
  shows "link px proto rootBuilder = Inl (LinkerConflict name)"
proof -
  have "refusal (dom proto \<union> set (declaredNames pre)) (set (claimedTypes pre)) d
      = Some (LinkerConflict name)"
    using declaredName_cases [OF assms(3)] assms(4,5) by auto
  then have "firstRefusal (dom proto) {} (declarationsOfAll rootBuilder)
      = Some (LinkerConflict name)"
    by (simp add: assms(1) firstRefusal_at [OF assms(2)])
  then show ?thesis by (rule link_build_fails)
qed

lemma linkView_taken:
  assumes "linkView a decl l = Inr l'"
  shows "viewName decl \<notin> taken l \<and> taken l' = insert (viewName decl) (taken l)"
  using assms
proof (rule linkView_effect)
  fix view l1
  assume "\<not> hasProperty (objectPrototype l) (globalScope l) (viewName decl)"
    and "l' = l1\<lparr>displayNames := (displayNames l)(view \<mapsto> ''View('' @ viewName decl @ '')''),
             typeMap := (typeMap l)(viewName decl \<mapsto> ''view''),
             globalScope := (globalScope l)(viewName decl \<mapsto> view)\<rparr>"
    and "l1 = l \<or> l1 = l\<lparr>connectCalls := Suc (connectCalls l)\<rparr>"
  then show ?thesis
    by (auto simp: taken_def hasProperty_def)
qed

lemma linkOwnViews_taken:
  "linkOwnViews a decls l = Inr l' \<Longrightarrow>
   distinct (map viewName decls) \<and> set (map viewName decls) \<inter> taken l = {}
   \<and> taken l' = taken l \<union> set (map viewName decls)"
proof (induction decls arbitrary: l)
  case Nil
  then show ?case by simp
next
  case (Cons decl decls)
  from Cons.prems obtain l1 where one: "linkView a decl l = Inr l1"
    and rest: "linkOwnViews a decls l1 = Inr l'"
    by (auto split: sum.splits)
  from linkView_taken [OF one] Cons.IH [OF rest] show ?case by auto
qed

lemma linkViews_taken:
  shows "Bundle_linkViews b l = Inr l' \<Longrightarrow>
      distinct (viewNames b) \<and> set (viewNames b) \<inter> taken l = {}
      \<and> taken l' = taken l \<union> set (viewNames b)"
    and "linkViewsOfAll bs l = Inr l'' \<Longrightarrow>
      distinct (concat (map viewNames bs)) \<and> set (concat (map viewNames bs)) \<inter> taken l = {}
      \<and> taken l'' = taken l \<union> set (concat (map viewNames bs))"
proof (induction b l and bs l arbitrary: l' and l'' rule: Bundle_linkViews_linkViewsOfAll.induct)
  case (1 n bs l)
  from 1(2) obtain l1 where own: "linkOwnViews (locals n) (views n) l = Inr l1"
    and kids: "linkViewsOfAll bs l1 = Inr l'"
    by (auto split: sum.splits)
  from linkOwnViews_taken [OF own] 1(1) [OF own kids] show ?case by auto
next
  case (2 l)
  then show ?case by simp
next
  case (3 b bs l)
  from 3(3) obtain l1 where first: "Bundle_linkViews b l = Inr l1"
    and rest: "linkViewsOfAll bs l1 = Inr l''"
    by (auto split: sum.splits)
  from 3(1) [OF first] 3(2) [OF first rest] show ?case by auto
qed

lemma inject_taken: "inject f a name l = Inr l' \<Longrightarrow> taken l' = taken l"
  by (auto simp: inject_def split: if_splits)

lemma injectNames_taken: "injectNames f a names l = Inr l' \<Longrightarrow> taken l' = taken l"
proof (induction names arbitrary: l)
  case Nil
  then show ?case by simp
next
  case (Cons name names)
  then show ?case by (auto split: sum.splits dest: inject_taken)
qed

lemma injectQueue_taken: "injectQueue f q l = Inr l' \<Longrightarrow> taken l' = taken l"
proof (induction q arbitrary: l)
  case Nil
  then show ?case by simp
next
  case (Cons e q)
  obtain a names where e: "e = (a, names)" by (cases e)
  from Cons show ?case by (auto simp: e split: sum.splits dest: injectNames_taken)
qed

lemma injectAll_taken: "injectAll f l = Inr l' \<Longrightarrow> taken l' = taken l"
  by (simp add: injectAll_def injectQueue_taken)

lemma link_names_distinct:
  assumes "link px proto rootBuilder = Inr r"
  shows "distinct (declaredNames (declarationsOfAll rootBuilder) @ viewNames (rootBundle r))"
proof -
  from assms obtain root0 l0 root1 l1 l2 l3 where
    nb: "new_Bundle (initial px proto) = (root0, l0)"
    and run: "runBuilder rootBuilder root0 l0 = Inr (root1, l1)"
    and inj: "injectAll (TypeArray [''action'', ''selector'', ''value'']) l1 = Inr l2"
    and views: "Bundle_linkViews (rootBundle r) l2 = Inr l3"
    by (auto elim!: link_InrE)
  note i = initial_taken [OF nb]
  have b: "buildsAs (Inr (root1, l1)) l0 (declarationsOfAll rootBuilder)"
    using build_outcome(2) [of root0 rootBuilder l0] i run by simp
  then have none: "firstRefusal (taken l0) (claimed l0) (declarationsOfAll rootBuilder) = None"
    by (cases "firstRefusal (taken l0) (claimed l0) (declarationsOfAll rootBuilder)")
       (simp_all add: buildsAs_def)
  with b have t1: "taken l1 = taken l0 \<union> set (declaredNames (declarationsOfAll rootBuilder))"
    by (simp add: buildsAs_def)
  have d: "distinct (declaredNames (declarationsOfAll rootBuilder))"
    using firstRefusal_None_iff [OF none] by simp
  have t2: "taken l2 = taken l1" by (rule injectAll_taken [OF inj])
  from linkViews_taken(1) [OF views] have "distinct (viewNames (rootBundle r))"
    "set (viewNames (rootBundle r)) \<inter> taken l2 = {}"
    by simp_all
  with d t1 t2 show ?thesis by auto
qed

text \<open>
  C7, as stated: whenever two bundles publish the same name, \<^verbatim>\<open>link\<close> fails with the
  name-conflict error carrying the name.  It does not when the two publications are
  \<^verbatim>\<open>defineAction\<close> calls with the same action type, as when a bundle that defines an action
  is included twice: \<^verbatim>\<open>defineAction\<close> registers the type first, and \<^verbatim>\<open>link\<close> fails with the
  type-conflict error.
\<close>

theorem C7_same_name_same_type_counterexample:
  "declaredNames (declarationsOfAll twiceActionExample) = [''a'', ''a'']
   \<and> link True Map.empty twiceActionExample = Inl (ActionTypeConflict (Str ''T''))
   \<and> link True Map.empty twiceActionExample \<noteq> Inl (LinkerConflict ''a'')"
  by (simp add: twiceActionExample_def link_eval)

text \<open>
  C7, amended.  A publication of a name that the global scope already has (or inherits
  from \<^verbatim>\<open>Object.prototype\<close>) is refused by \<^verbatim>\<open>publish\<close> with the name-conflict error
  carrying the name, whichever of \<^verbatim>\<open>defineValue\<close>, \<^verbatim>\<open>defineSelector\<close>, \<^verbatim>\<open>defineAction\<close> or
  the linking of a view asks for it.  When the declarations that run before a define
  call of \<open>name\<close> are free of conflicts, one of them publishes \<open>name\<close>, and the call is
  not a \<^verbatim>\<open>defineAction\<close> whose action type one of them claims, \<^verbatim>\<open>link\<close> fails with the
  name-conflict error carrying \<open>name\<close> (a \<^verbatim>\<open>defineAction\<close> whose type is claimed fails
  with the type-conflict error before its name is looked at).  And when \<^verbatim>\<open>link\<close>
  succeeds, the names of all the define calls and of all the views of the tree are
  pairwise distinct: each name is published once.
\<close>

theorem C7_name_conflict:
  "(hasProperty (objectPrototype l) (globalScope l) name \<longrightarrow>
      publish type name value l = Inl (LinkerConflict name))
   \<and> (declarationsOfAll rootBuilder = pre @ d # post \<and> conflictFree proto pre
        \<and> declaredName d = Some name \<and> name \<in> set (declaredNames pre)
        \<and> (case claimedType d of None \<Rightarrow> True | Some t \<Rightarrow> t \<notin> set (claimedTypes pre)) \<longrightarrow>
      link px proto rootBuilder = Inl (LinkerConflict name))
   \<and> (link px proto rootBuilder = Inr r \<longrightarrow>
      distinct (declaredNames (declarationsOfAll rootBuilder) @ viewNames (rootBundle r)))"
proof (intro conjI impI)
  assume "hasProperty (objectPrototype l) (globalScope l) name"
  then show "publish type name value l = Inl (LinkerConflict name)"
    by (simp add: publish_def)
next
  assume "declarationsOfAll rootBuilder = pre @ d # post \<and> conflictFree proto pre
        \<and> declaredName d = Some name \<and> name \<in> set (declaredNames pre)
        \<and> (case claimedType d of None \<Rightarrow> True | Some t \<Rightarrow> t \<notin> set (claimedTypes pre))"
  then show "link px proto rootBuilder = Inl (LinkerConflict name)"
    using link_name_conflict by blast
next
  assume "link px proto rootBuilder = Inr r"
  then show "distinct (declaredNames (declarationsOfAll rootBuilder) @ viewNames (rootBundle r))"
    by (rule link_names_distinct)
qed

theorem C7_name_conflict_witness:
  "link True Map.empty twiceValueExample = Inl (LinkerConflict ''x'')
   \<and> link True Map.empty viewClashExample = Inl (LinkerConflict ''V'')
   \<and> \<not> isl (link True Map.empty viewExample)
   \<and> declaredNames (declarationsOfAll viewExample)
       @ viewNames (rootBundle (projr (link True Map.empty viewExample))) = [''s'', ''V'']"
proof -
  have cf: "conflictFree Map.empty [DefineValue ''x'' (Num 1)]"
    by (simp add: conflictFree_def)
  have d1: "declarationsOfAll twiceValueExample
      = [DefineValue ''x'' (Num 1)] @ DefineValue ''x'' (Num 1) # []"
    by (simp add: twiceValueExample_def)
  have n: "declaredName (DefineValue ''x'' (Num 1)) = Some ''x''"
    "''x'' \<in> set (declaredNames [DefineValue ''x'' (Num 1)])"
    "(case claimedType (DefineValue ''x'' (Num 1)) of None \<Rightarrow> True
      | Some t \<Rightarrow> t \<notin> set (claimedTypes [DefineValue ''x'' (Num 1)]))"
    by simp_all
  from C7_name_conflict [of _ "''x''" _ _ twiceValueExample "[DefineValue ''x'' (Num 1)]"
      "DefineValue ''x'' (Num 1)" "[]" Map.empty True] d1 cf n
  have 1: "link True Map.empty twiceValueExample = Inl (LinkerConflict ''x'')"
    by blast
  have 2: "link True Map.empty viewClashExample = Inl (LinkerConflict ''V'')"
    by (simp add: viewClashExample_def link_eval)
  have 3: "\<not> isl (link True Map.empty viewExample)"
    by (simp add: viewExample_def link_eval)
  have 4: "declaredNames (declarationsOfAll viewExample)
       @ viewNames (rootBundle (projr (link True Map.empty viewExample))) = [''s'', ''V'']"
    by (simp add: viewExample_def link_eval)
  from 1 2 3 4 show ?thesis by simp
qed

end
